theory Spec2Isabelle
  imports Complex_Main "HOL-Library.Word" "HOL-Library.Signed_Division"
    "HOL-Library.Log_Nat"
begin

unbundle bit_operations_syntax

section \<open>Configuration, time and vouchers (main.go, db.go)\<close>

text \<open>
  A \<^verbatim>\<open>float64\<close> is modelled by the rational number it holds. \<open>float64 x\<close> is the binary64
  number nearest to \<open>x\<close>, ties going to the even significand: what a conversion to
  \<^verbatim>\<open>float64\<close> and each \<^verbatim>\<open>float64\<close> operation of Go return when the exact result is \<open>x\<close>.
  The significand has 53 bits and the least exponent of a normal number is \<open>-1022\<close>; a
  result of magnitude \<open>2\<^sup>1\<^sup>0\<^sup>2\<^sup>4\<close> or more stands for an infinity. \<open>floorLog2 x\<close> is
  \<open>\<lfloor>log\<^sub>2 x\<rfloor>\<close> for a positive \<open>x\<close>.
\<close>

definition floorLog2 :: "rat \<Rightarrow> int" where
  "floorLog2 x =
     (let (a, b) = quotient_of x; d = bitlen a - bitlen b
      in if 2 powi d \<le> x then d else d - 1)"

definition roundTiesToEven :: "rat \<Rightarrow> int" where
  "roundTiesToEven q =
     (let n = \<lfloor>q\<rfloor>; r = q - of_int n
      in if r < 1 / 2 then n else if 1 / 2 < r then n + 1 else if even n then n else n + 1)"

definition float64 :: "rat \<Rightarrow> rat" where
  "float64 x =
     (if x = 0 then 0
      else let e = max (floorLog2 \<bar>x\<bar>) (- 1022) - 52
           in of_int (roundTiesToEven (x / 2 powi e)) * 2 powi e)"

text \<open>
  The fields of \<^verbatim>\<open>Config\<close> that the modelled code reads. \<^verbatim>\<open>FundingFeePercent\<close> is a
  \<^verbatim>\<open>float64\<close>; the field holds the value of a finite one.
\<close>

record Config =
  FundingFeeMinMsats :: int
  FundingFeePercent :: rat
  VoucherAbsoluteExpirySecs :: int

text \<open>The defaults of \<^verbatim>\<open>loadConfig\<close>; the constant \<^verbatim>\<open>0.004\<close> is converted to \<^verbatim>\<open>float64\<close>.\<close>

definition defaultConfig :: Config where
  "defaultConfig =
     \<lparr>FundingFeeMinMsats = 2000, FundingFeePercent = float64 (4 / 1000),
      VoucherAbsoluteExpirySecs = 31536000\<rparr>"

text \<open>
  A row of table \<^verbatim>\<open>vouchers\<close>, as \<^verbatim>\<open>scanVoucher\<close> reads it into a \<^verbatim>\<open>Voucher\<close>.
  \<^verbatim>\<open>created_at\<close> and \<^verbatim>\<open>last_funded_at\<close> are only ever written by SQLite's
  \<^verbatim>\<open>CURRENT_TIMESTAMP\<close>, which has a resolution of one second: they are Unix seconds.
  \<^verbatim>\<open>last_funded_at\<close> is nullable. The clock (\<^verbatim>\<open>time.Now()\<close>) is a parameter
  \<open>now\<close> of every function that reads it, in Unix nanoseconds.
\<close>

record Voucher =
  PayID :: string
  WithdrawID :: string
  CreationHash :: "string option"
  LightningAddress :: string
  TotalPaidMsats :: int
  LastFundedAt :: "int option"
  ExpirySeconds :: int
  Active :: bool
  CreatedAt :: int

text \<open>
  \<^verbatim>\<open>time.Duration(n) * time.Second\<close>: a \<^verbatim>\<open>Duration\<close> is an \<^verbatim>\<open>int64\<close> count of
  nanoseconds and Go's multiplication wraps around in 64 bits.
\<close>

definition durationSeconds :: "int \<Rightarrow> int" where
  "durationSeconds n = signed_take_bit 63 (n * 1000000000)"

text \<open>The instant of a stored timestamp, in nanoseconds.\<close>

definition instant :: "int \<Rightarrow> int" where
  "instant secs = secs * 1000000000"

text \<open>
  \<^verbatim>\<open>Voucher.IsActive\<close>: \<^verbatim>\<open>now.After(t.Add(d))\<close> is \<open>now > t + d\<close> on instants.
\<close>

definition IsActive :: "Config \<Rightarrow> int \<Rightarrow> Voucher \<Rightarrow> bool" where
  "IsActive cfg now v =
     (if \<not> Active v then False
      else if now > instant (CreatedAt v) + durationSeconds (VoucherAbsoluteExpirySecs cfg)
      then False
      else (case LastFundedAt v of
              None \<Rightarrow> True
            | Some lf \<Rightarrow>
                if now > instant lf + durationSeconds (ExpirySeconds v) then False
                else True))"

text \<open>
  The \<^verbatim>\<open>WHERE\<close> clause of \<^verbatim>\<open>GetExpiredVouchersForRefund\<close>. \<^verbatim>\<open>strftime('%s', 'now')\<close>
  is the clock in whole Unix seconds.
\<close>

definition unixSeconds :: "int \<Rightarrow> int" where
  "unixSeconds now = now div 1000000000"

definition refundSelected :: "Config \<Rightarrow> int \<Rightarrow> Voucher \<Rightarrow> bool" where
  "refundSelected cfg now v =
     (Active v \<and> TotalPaidMsats v > 0 \<and>
      ((case LastFundedAt v of
          None \<Rightarrow> False
        | Some lf \<Rightarrow> unixSeconds now - lf \<ge> ExpirySeconds v)
       \<or> unixSeconds now - CreatedAt v \<ge> VoucherAbsoluteExpirySecs cfg))"

text \<open>
  The derived predicate as the specification words it:
  \<open>active AND now \<le> created_at + absolute_expiry AND
   (last_funded_at is null OR now \<le> last_funded_at + expiry_seconds)\<close>.
\<close>

definition isActiveSpec :: "Config \<Rightarrow> int \<Rightarrow> Voucher \<Rightarrow> bool" where
  "isActiveSpec cfg now v =
     (Active v \<and> now \<le> instant (CreatedAt v + VoucherAbsoluteExpirySecs cfg) \<and>
      (case LastFundedAt v of
         None \<Rightarrow> True
       | Some lf \<Rightarrow> now \<le> instant (lf + ExpirySeconds v)))"

text \<open>A window of \<open>n\<close> seconds fits a \<^verbatim>\<open>Duration\<close> when its nanoseconds fit 64 bits.\<close>

definition fitsDuration :: "int \<Rightarrow> bool" where
  "fitsDuration n = (- (2 ^ 63) \<le> n * 1000000000 \<and> n * 1000000000 < 2 ^ 63)"

section \<open>The funding fee (handlers.go, handleLNURLPayCallback)\<close>

text \<open>
  \<^verbatim>\<open>feeMsats := int64(float64(cfg.FundingFeeMinMsats) +
       math.Floor(float64(amountMsats)*cfg.FundingFeePercent))\<close> and
  \<^verbatim>\<open>creditedMsats := amountMsats - feeMsats\<close>. Both conversions to \<^verbatim>\<open>float64\<close>, the
  product and the sum are rounded to binary64. The conversion to \<^verbatim>\<open>int64\<close> truncates
  towards zero; for a value outside the range of \<^verbatim>\<open>int64\<close> Go leaves the result to the
  implementation, and the model returns \<open>None\<close>. The subtraction wraps around in 64 bits.
\<close>

definition feeMsats :: "Config \<Rightarrow> int \<Rightarrow> int option" where
  "feeMsats cfg amountMsats =
     (let product = float64 (float64 (of_int amountMsats) * FundingFeePercent cfg);
          total = float64 (float64 (of_int (FundingFeeMinMsats cfg)) + of_int \<lfloor>product\<rfloor>);
          fee = (if 0 \<le> total then \<lfloor>total\<rfloor> else \<lceil>total\<rceil>)
      in if - (2 ^ 63) \<le> fee \<and> fee < 2 ^ 63 then Some fee else None)"

definition creditedMsats :: "Config \<Rightarrow> int \<Rightarrow> int option" where
  "creditedMsats cfg amountMsats =
     map_option (\<lambda>fee. signed_take_bit 63 (amountMsats - fee)) (feeMsats cfg amountMsats)"

text \<open>The fee rule as the specification words it: \<open>max(minimum_fee, floor(amount \<times> fee_percent))\<close>.\<close>

definition feeSpec :: "Config \<Rightarrow> int \<Rightarrow> int" where
  "feeSpec cfg amountMsats =
     max (FundingFeeMinMsats cfg) \<lfloor>of_int amountMsats * FundingFeePercent cfg\<rfloor>"

section \<open>Errors, external calls and the refund payment (lnurl.go)\<close>

text \<open>
  Go errors of the gateway and network layer. \<open>Wrapped p e\<close> is
  \<^verbatim>\<open>fmt.Errorf(p + "%w", e)\<close>, which keeps \<open>e\<close> in the chain that \<^verbatim>\<open>errors.Is\<close>
  walks; \<open>Dust a m\<close> is the error of \<^verbatim>\<open>RefundToLightningAddress\<close> for an amount \<open>a\<close>
  below the target's minimum \<open>m\<close>; \<open>OtherError\<close> is any other error, by its text.
\<close>

datatype go_error =
  DeadlineExceeded
| Canceled
| Dust int int
| Wrapped string go_error
| OtherError string

fun errorsIs :: "go_error \<Rightarrow> go_error \<Rightarrow> bool" where
  "errorsIs (Wrapped p e) target = (Wrapped p e = target \<or> errorsIs e target)"
| "errorsIs e target = (e = target)"

text \<open>
  \<^verbatim>\<open>errors.Is(err, context.DeadlineExceeded) || errors.Is(err, context.Canceled)\<close>:
  the test both callers use for an outcome that is not known.
\<close>

definition ambiguous :: "go_error \<Rightarrow> bool" where
  "ambiguous err = (errorsIs err DeadlineExceeded \<or> errorsIs err Canceled)"

record LNURLPayParams =
  Callback :: string
  MinSendable :: int
  MaxSendable :: int

text \<open>
  What the outside world answers: \<^verbatim>\<open>ResolveLightningAddress\<close> for an address,
  \<^verbatim>\<open>GetInvoiceFromCallback\<close> for a callback and an amount, and the gateway's
  \<^verbatim>\<open>PayInvoice\<close> for an invoice. Every such call is recorded in a trace, and so is
  every write that deactivates or reactivates a voucher.
\<close>

record Network =
  resolveResult :: "string \<Rightarrow> go_error + LNURLPayParams"
  callbackResult :: "string \<Rightarrow> int \<Rightarrow> go_error + string"
  payResult :: "string \<Rightarrow> go_error option"

datatype event =
  ResolveCall string
| CallbackCall string int
| PayInvoiceCall string
| Deactivated string
| Reactivated string int

text \<open>
  \<^verbatim>\<open>RefundToLightningAddress\<close>. Go's \<^verbatim>\<open>/\<close> on \<^verbatim>\<open>int64\<close> truncates towards zero
  (\<open>sdiv\<close>); nothing here can overflow.
\<close>

definition RefundToLightningAddress ::
    "Network \<Rightarrow> string \<Rightarrow> int \<Rightarrow> go_error option \<times> event list" where
  "RefundToLightningAddress net address amountMsats =
     (case resolveResult net address of
        Inl err \<Rightarrow> (Some (Wrapped ''resolve address: '' err), [ResolveCall address])
      | Inr params \<Rightarrow>
          if amountMsats < MinSendable params
          then (Some (Dust amountMsats (MinSendable params)), [ResolveCall address])
          else
            let capped = (if amountMsats > MaxSendable params then MaxSendable params
                          else amountMsats);
                rounded = (capped sdiv 1000) * 1000
            in (case callbackResult net (Callback params) rounded of
                  Inl err \<Rightarrow>
                    (Some (Wrapped ''get invoice from callback: '' err),
                     [ResolveCall address, CallbackCall (Callback params) rounded])
                | Inr invoice \<Rightarrow>
                    (payResult net invoice,
                     [ResolveCall address, CallbackCall (Callback params) rounded,
                      PayInvoiceCall invoice])))"

section \<open>The store (db.go)\<close>

text \<open>
  Tables \<^verbatim>\<open>vouchers\<close> and \<^verbatim>\<open>withdraw_sessions\<close>. A session row is keyed by \<^verbatim>\<open>k1\<close>
  (the primary key); its two timestamps are written and never read, and are left out.
  Tables \<^verbatim>\<open>voucher_creation_requests\<close> and \<^verbatim>\<open>pay_invoices\<close> are not part of the
  modelled state. A statement that the storage layer refuses is a fault: \<open>Some m\<close> is
  the driver's error with text \<open>m\<close>, \<open>None\<close> lets the statement run.
\<close>

record WithdrawSession =
  sessionWithdrawID :: string
  used :: int

record Store =
  vouchers :: "Voucher list"
  withdraw_sessions :: "string \<rightharpoonup> WithdrawSession"

type_synonym fault = "string option"

text \<open>\<^verbatim>\<open>UPDATE vouchers SET total_paid_msats=0, active=0 WHERE pay_id=?\<close>\<close>

definition deactivateRows :: "string \<Rightarrow> Voucher list \<Rightarrow> Voucher list" where
  "deactivateRows payID rows =
     map (\<lambda>v. if PayID v = payID then v\<lparr>TotalPaidMsats := 0, Active := False\<rparr> else v) rows"

text \<open>\<^verbatim>\<open>UPDATE vouchers SET total_paid_msats=?, active=1 WHERE pay_id=?\<close>\<close>

definition reactivateRows :: "string \<Rightarrow> int \<Rightarrow> Voucher list \<Rightarrow> Voucher list" where
  "reactivateRows payID balanceMsats rows =
     map (\<lambda>v. if PayID v = payID then v\<lparr>TotalPaidMsats := balanceMsats, Active := True\<rparr>
              else v) rows"

definition DeactivateVoucher :: "fault \<Rightarrow> string \<Rightarrow> Store \<Rightarrow> fault \<times> Store" where
  "DeactivateVoucher f payID s =
     (case f of
        Some m \<Rightarrow> (Some m, s)
      | None \<Rightarrow> (None, s\<lparr>vouchers := deactivateRows payID (vouchers s)\<rparr>))"

definition ReactivateVoucher :: "fault \<Rightarrow> string \<Rightarrow> int \<Rightarrow> Store \<Rightarrow> fault \<times> Store" where
  "ReactivateVoucher f payID balanceMsats s =
     (case f of
        Some m \<Rightarrow> (Some m, s)
      | None \<Rightarrow> (None, s\<lparr>vouchers := reactivateRows payID balanceMsats (vouchers s)\<rparr>))"





text \<open>
  \<^verbatim>\<open>GetVoucherByWithdrawID\<close>: the first row with the identifier; \<open>None\<close> stands for
  the error return (no row, or a failed scan).
\<close>

definition GetVoucherByWithdrawID :: "bool \<Rightarrow> string \<Rightarrow> Store \<Rightarrow> Voucher option" where
  "GetVoucherByWithdrawID scanFails withdrawID s =
     (if scanFails then None else find (\<lambda>v. WithdrawID v = withdrawID) (vouchers s))"


text \<open>
  \<^verbatim>\<open>InsertWithdrawSession\<close>: the insert fails on a fault, on a \<^verbatim>\<open>k1\<close> already present
  (primary key) and on a \<^verbatim>\<open>withdraw_id\<close> no voucher has (foreign key).
\<close>

definition InsertWithdrawSession :: "fault \<Rightarrow> string \<Rightarrow> string \<Rightarrow> Store \<Rightarrow> fault \<times> Store" where
  "InsertWithdrawSession f k1 withdrawID s =
     (case f of
        Some m \<Rightarrow> (Some m, s)
      | None \<Rightarrow>
          if k1 \<in> dom (withdraw_sessions s) then (Some ''UNIQUE constraint failed'', s)
          else if \<not> (\<exists>v \<in> set (vouchers s). WithdrawID v = withdrawID)
          then (Some ''FOREIGN KEY constraint failed'', s)
          else (None, s\<lparr>withdraw_sessions :=
                  (withdraw_sessions s)(k1 \<mapsto> \<lparr>sessionWithdrawID = withdrawID, used = 0\<rparr>)\<rparr>))"

text \<open>
  \<^verbatim>\<open>ValidateAndUseWithdrawSession\<close>, one transaction. The result is the pair
  \<^verbatim>\<open>(payID, err)\<close> the source returns; every return but the committed one leaves the
  store as it was (\<^verbatim>\<open>defer tx.Rollback()\<close>). A failed scan of either query takes the
  same branch as a missing row.
\<close>

record SessionFaults =
  beginFault :: fault
  sessionScanFails :: bool
  updateFault :: fault
  voucherScanFails :: bool
  commitFault :: fault

definition noSessionFaults :: SessionFaults where
  "noSessionFaults =
     \<lparr>beginFault = None, sessionScanFails = False, updateFault = None,
      voucherScanFails = False, commitFault = None\<rparr>"

definition ValidateAndUseWithdrawSession ::
    "SessionFaults \<Rightarrow> string \<Rightarrow> string \<Rightarrow> Store \<Rightarrow> (string \<times> fault) \<times> Store" where
  "ValidateAndUseWithdrawSession f k1 withdrawID s =
     (case beginFault f of
        Some m \<Rightarrow> (('''', Some m), s)
      | None \<Rightarrow>
          (case (if sessionScanFails f then None else withdraw_sessions s k1) of
             None \<Rightarrow> (('''', Some ''k1 not found''), s)
           | Some sess \<Rightarrow>
               if sessionWithdrawID sess \<noteq> withdrawID then (('''', Some ''k1 mismatch''), s)
               else if used sess \<noteq> 0 then (('''', Some ''k1 already used''), s)
               else
                 (case updateFault f of
                    Some m \<Rightarrow> (('''', Some m), s)
                  | None \<Rightarrow>
                      let s1 = s\<lparr>withdraw_sessions :=
                                  (withdraw_sessions s)(k1 \<mapsto> sess\<lparr>used := 1\<rparr>)\<rparr>
                      in (case (if voucherScanFails f then None
                                else find (\<lambda>v. WithdrawID v = withdrawID) (vouchers s1)) of
                            None \<Rightarrow> (('''', Some ''voucher not found for withdraw_id''), s)
                          | Some v \<Rightarrow>
                              (case commitFault f of
                                 Some m \<Rightarrow> ((PayID v, Some m), s)
                               | None \<Rightarrow> ((PayID v, None), s1))))))"

section \<open>The withdrawal callback and the refund job (handlers.go)\<close>

text \<open>
  An LNURL response: \<^verbatim>\<open>{"status":"OK"}\<close>, or \<^verbatim>\<open>lnurlError\<close>'s
  \<^verbatim>\<open>{"status":"ERROR","reason":...}\<close>; both are sent with HTTP status 200.
\<close>

datatype response = StatusOK | StatusError string

text \<open>What one run of \<^verbatim>\<open>handleLNURLWithdrawCallback\<close> meets outside itself.\<close>

record WithdrawEnv =
  clock :: int
  sessionFaults :: SessionFaults
  getVoucherFails :: bool
  payInvoice :: "string \<Rightarrow> go_error option"
  deactivateFault :: fault
  txBeginFault :: fault
  txDeactivateFault :: fault
  txCommitFault :: fault

definition handleLNURLWithdrawCallback ::
    "Config \<Rightarrow> WithdrawEnv \<Rightarrow> string \<Rightarrow> string \<Rightarrow> string \<Rightarrow> Store
      \<Rightarrow> response \<times> event list \<times> Store" where
  "handleLNURLWithdrawCallback cfg env withdrawID k1 pr s =
     (if k1 = '''' \<or> pr = '''' then (StatusError ''missing k1 or pr parameter'', [], s)
      else
        (case ValidateAndUseWithdrawSession (sessionFaults env) k1 withdrawID s of
           ((payID, Some m), s1) \<Rightarrow>
             (StatusError (''invalid or already-used k1: '' @ m), [], s1)
         | ((payID, None), s1) \<Rightarrow>
             (case GetVoucherByWithdrawID (getVoucherFails env) withdrawID s1 of
                None \<Rightarrow> (StatusError ''voucher not found'', [], s1)
              | Some v \<Rightarrow>
                  if \<not> IsActive cfg (clock env) v
                  then (StatusError ''voucher is not active'', [], s1)
                  else if TotalPaidMsats v \<le> 0
                  then (StatusError ''voucher has no balance'', [], s1)
                  else
                    (case payInvoice env pr of
                       Some err \<Rightarrow>
                         if ambiguous err
                         then
                           (case DeactivateVoucher (deactivateFault env) payID s1 of
                              (Some m, s2) \<Rightarrow>
                                (StatusError ''payment timed out'', [PayInvoiceCall pr], s2)
                            | (None, s2) \<Rightarrow>
                                (StatusError ''payment timed out'',
                                 [PayInvoiceCall pr, Deactivated payID], s2))
                         else (StatusError ''payment failed'', [PayInvoiceCall pr], s1)
                     | None \<Rightarrow>
                         (case txBeginFault env of
                            Some m \<Rightarrow> (StatusOK, [PayInvoiceCall pr], s1)
                          | None \<Rightarrow>
                              (case txDeactivateFault env of
                                 Some m \<Rightarrow> (StatusOK, [PayInvoiceCall pr], s1)
                               | None \<Rightarrow>
                                   (case txCommitFault env of
                                      Some m \<Rightarrow> (StatusOK, [PayInvoiceCall pr], s1)
                                    | None \<Rightarrow>
                                        (StatusOK, [PayInvoiceCall pr, Deactivated payID],
                                         s1\<lparr>vouchers :=
                                              deactivateRows payID (vouchers s1)\<rparr>))))))))"

text \<open>
  The body of the loop of \<^verbatim>\<open>runRefundJob\<close> for one selected voucher \<open>v\<close> (the
  \<^verbatim>\<open>Voucher\<close> read by the query), and the job. Faults and network answers are given
  per \<^verbatim>\<open>pay_id\<close>.
\<close>

record RefundEnv =
  jobClock :: int
  queryFault :: fault
  jobDeactivateFault :: "string \<Rightarrow> fault"
  network :: "string \<Rightarrow> Network"
  reactivateFault :: "string \<Rightarrow> fault"

definition refundVoucher :: "RefundEnv \<Rightarrow> Voucher \<Rightarrow> Store \<Rightarrow> event list \<times> Store" where
  "refundVoucher env v s =
     (case DeactivateVoucher (jobDeactivateFault env (PayID v)) (PayID v) s of
        (Some m, s1) \<Rightarrow> ([], s1)
      | (None, s1) \<Rightarrow>
          (case RefundToLightningAddress (network env (PayID v)) (LightningAddress v)
                  (TotalPaidMsats v) of
             (Some err, calls) \<Rightarrow>
               if ambiguous err then (Deactivated (PayID v) # calls, s1)
               else
                 (case ReactivateVoucher (reactivateFault env (PayID v)) (PayID v)
                         (TotalPaidMsats v) s1 of
                    (Some m, s2) \<Rightarrow> (Deactivated (PayID v) # calls, s2)
                  | (None, s2) \<Rightarrow>
                      (Deactivated (PayID v) # calls @ [Reactivated (PayID v) (TotalPaidMsats v)],
                       s2))
           | (None, calls) \<Rightarrow> (Deactivated (PayID v) # calls, s1)))"



section \<open>The bech32 codec (lnurl.go)\<close>

text \<open>
  A \<^verbatim>\<open>byte\<close> is an 8-bit word, a \<^verbatim>\<open>uint32\<close> a 32-bit word and Go's \<^verbatim>\<open>int\<close> a 64-bit
  word read as two's complement. A Go \<^verbatim>\<open>string\<close> that is sliced as bytes is a list of
  bytes; text made of ASCII characters is an Isabelle string.
\<close>

type_synonym byte = "8 word"

definition bech32Charset :: string where
  "bech32Charset = ''qpzry9x8gf2tvdw0s3jn54khce6mua7l''"

definition bech32Generator :: "32 word list" where
  "bech32Generator = [0x3b6a57b2, 0x26508e6d, 0x1ea119fa, 0x3d4233dd, 0x2a1462b3]"

text \<open>
  One round of the loop of \<^verbatim>\<open>bech32Polymod\<close>, and the loop. In Go \<^verbatim>\<open><<\<close> binds
  tighter than \<^verbatim>\<open>^\<close>.
\<close>

definition polymodStep :: "32 word \<Rightarrow> byte \<Rightarrow> 32 word" where
  "polymodStep chk v =
     (let top = drop_bit 25 chk;
          chk1 = push_bit 5 (chk AND 0x1ffffff) XOR ucast v
      in foldl (\<lambda>c i. if drop_bit i top AND 1 = 1 then c XOR bech32Generator ! i else c)
           chk1 [0..<5])"

definition bech32Polymod :: "byte list \<Rightarrow> 32 word" where
  "bech32Polymod values = foldl polymodStep 1 values"

text \<open>
  \<^verbatim>\<open>bech32HRPExpand\<close>, for a prefix of ASCII characters (then \<^verbatim>\<open>range hrp\<close> visits one
  byte per step): the high bits of each character, a zero, the low bits of each.
\<close>

definition bech32HRPExpand :: "string \<Rightarrow> byte list" where
  "bech32HRPExpand hrp =
     map (\<lambda>c. drop_bit 5 (of_char c :: byte)) hrp @ [0]
       @ map (\<lambda>c. (of_char c :: byte) AND 31) hrp"

definition bech32CreateChecksum :: "string \<Rightarrow> byte list \<Rightarrow> byte list" where
  "bech32CreateChecksum hrp data =
     (let values = bech32HRPExpand hrp @ data @ [0, 0, 0, 0, 0, 0];
          pm = bech32Polymod values XOR 1
      in map (\<lambda>i. ucast (drop_bit (5 * (5 - i)) pm AND 31)) [0..<6])"

text \<open>
  \<^verbatim>\<open>convertBits\<close>. The inner loop \<^verbatim>\<open>for bits >= toBits\<close> does not end when
  \<^verbatim>\<open>toBits\<close> is 0, so the function returns an option, \<open>None\<close> for a run that does not
  return. \<^verbatim>\<open>acc\<close> is never masked: its high bits are shifted out of the 64-bit word.
  \<^verbatim>\<open>acc>>bits\<close> is the arithmetic shift of a signed \<^verbatim>\<open>int\<close>. The counters are \<^verbatim>\<open>uint\<close>;
  they stay below \<^verbatim>\<open>fromBits + toBits\<close>.
\<close>

partial_function (option) drainBits ::
    "nat \<Rightarrow> 64 word \<Rightarrow> 64 word \<Rightarrow> nat \<Rightarrow> byte list \<Rightarrow> (nat \<times> byte list) option" where
  "drainBits toBits maxv acc bits result =
     (if bits \<ge> toBits
      then drainBits toBits maxv acc (bits - toBits)
             (result @ [ucast (signed_drop_bit (bits - toBits) acc AND maxv)])
      else Some (bits, result))"

declare drainBits.simps [code]

fun convertLoop ::
    "nat \<Rightarrow> nat \<Rightarrow> 64 word \<Rightarrow> byte list \<Rightarrow> 64 word \<Rightarrow> nat \<Rightarrow> byte list
      \<Rightarrow> (64 word \<times> nat \<times> byte list) option" where
  "convertLoop fromBits toBits maxv [] acc bits result = Some (acc, bits, result)"
| "convertLoop fromBits toBits maxv (v # data) acc bits result =
     (let acc1 = push_bit fromBits acc OR ucast v;
          bits1 = bits + fromBits
      in case drainBits toBits maxv acc1 bits1 result of
           None \<Rightarrow> None
         | Some (bits2, result2) \<Rightarrow> convertLoop fromBits toBits maxv data acc1 bits2 result2)"

definition convertBits ::
    "byte list \<Rightarrow> nat \<Rightarrow> nat \<Rightarrow> bool \<Rightarrow> (string + byte list) option" where
  "convertBits data fromBits toBits pad =
     (let maxv = push_bit toBits 1 - 1
      in case convertLoop fromBits toBits maxv data 0 0 [] of
           None \<Rightarrow> None
         | Some (acc, bits, result) \<Rightarrow>
             Some (if pad
                   then (if bits > 0
                         then Inr (result @ [ucast (push_bit (toBits - bits) acc AND maxv)])
                         else Inr result)
                   else if bits \<ge> fromBits \<or> push_bit (toBits - bits) acc AND maxv \<noteq> 0
                   then Inl ''invalid padding in bit conversion''
                   else Inr result))"

text \<open>
  \<^verbatim>\<open>strings.ToUpper\<close> and \<^verbatim>\<open>strings.ToLower\<close> on ASCII text, the only text the codec
  builds or accepts.
\<close>

definition toUpperASCII :: "char \<Rightarrow> char" where
  "toUpperASCII c =
     (case map_of (zip ''abcdefghijklmnopqrstuvwxyz'' ''ABCDEFGHIJKLMNOPQRSTUVWXYZ'') c of
        Some u \<Rightarrow> u
      | None \<Rightarrow> c)"

definition toLowerASCII :: "char \<Rightarrow> char" where
  "toLowerASCII c =
     (case map_of (zip ''ABCDEFGHIJKLMNOPQRSTUVWXYZ'' ''abcdefghijklmnopqrstuvwxyz'') c of
        Some l \<Rightarrow> l
      | None \<Rightarrow> c)"

text \<open>
  \<^verbatim>\<open>EncodeLNURL\<close>. The loop over \<^verbatim>\<open>combined\<close> stops at the first value that is not an
  index of the charset.
\<close>

fun writeSymbols :: "byte list \<Rightarrow> string \<Rightarrow> string + string" where
  "writeSymbols [] sb = Inr sb"
| "writeSymbols (c # cs) sb =
     (if unat c \<ge> length bech32Charset then Inl ''invalid data value''
      else writeSymbols cs (sb @ [bech32Charset ! unat c]))"

definition EncodeLNURL :: "byte list \<Rightarrow> (string + string) option" where
  "EncodeLNURL rawURL =
     (case convertBits rawURL 8 5 True of
        None \<Rightarrow> None
      | Some (Inl err) \<Rightarrow> Some (Inl err)
      | Some (Inr converted) \<Rightarrow>
          (let checksum = bech32CreateChecksum ''lnurl'' converted;
               combined = converted @ checksum
           in case writeSymbols combined ''lnurl1'' of
                Inl err \<Rightarrow> Some (Inl err)
              | Inr sb \<Rightarrow> Some (Inr (map toUpperASCII sb))))"

text \<open>
  Modelled from the spec: \<^verbatim>\<open>DecodeLNURL\<close>, which handlers.go calls and src/ does not
  define. The specification (4.1): case-normalize, split at the last occurrence of
  \<open>'1'\<close> into prefix and data, reverse-map charset symbols to 5-bit values, verify the
  checksum (polymod of expanded prefix + data must equal 1), drop the 6 checksum symbols,
  re-group the remainder from 5-bit to 8-bit without padding, and return the bytes. The
  re-grouping is \<^verbatim>\<open>convertBits\<close> of the source. A string without \<open>'1'\<close> has no prefix and
  fails.
\<close>

definition splitAtLastOne :: "string \<Rightarrow> (string \<times> string) option" where
  "splitAtLastOne s =
     (case dropWhile (\<lambda>c. c \<noteq> CHR ''1'') (rev s) of
        [] \<Rightarrow> None
      | one # front \<Rightarrow> Some (rev front, rev (takeWhile (\<lambda>c. c \<noteq> CHR ''1'') (rev s))))"

fun indexFrom :: "nat \<Rightarrow> char \<Rightarrow> string \<Rightarrow> nat option" where
  "indexFrom i c [] = None"
| "indexFrom i c (x # xs) = (if x = c then Some i else indexFrom (Suc i) c xs)"

definition charsetIndex :: "char \<Rightarrow> byte option" where
  "charsetIndex c = map_option of_nat (indexFrom 0 c bech32Charset)"

fun readSymbols :: "string \<Rightarrow> byte list option" where
  "readSymbols [] = Some []"
| "readSymbols (c # cs) =
     (case charsetIndex c of
        None \<Rightarrow> None
      | Some v \<Rightarrow> (case readSymbols cs of None \<Rightarrow> None | Some vs \<Rightarrow> Some (v # vs)))"

definition DecodeLNURL :: "string \<Rightarrow> (string + byte list) option" where
  "DecodeLNURL lnurlString =
     (case splitAtLastOne (map toLowerASCII lnurlString) of
        None \<Rightarrow> Some (Inl ''invalid bech32 string'')
      | Some (hrp, symbols) \<Rightarrow>
          (case readSymbols symbols of
             None \<Rightarrow> Some (Inl ''invalid character'')
           | Some values \<Rightarrow>
               if bech32Polymod (bech32HRPExpand hrp @ values) \<noteq> 1
               then Some (Inl ''invalid checksum'')
               else convertBits (take (length values - 6) values) 5 8 False))"

section \<open>Notions for the proofs about the codec\<close>

text \<open>
  The generator terms one round of the polymod adds; the 30-bit number that up to six
  5-bit symbols spell; the bits of \<^verbatim>\<open>acc\<close> that \<^verbatim>\<open>convertBits\<close> has not yet emitted; the
  number a list of \<open>k\<close>-bit symbols spells, most significant first; and the invariant of
  the loops of \<^verbatim>\<open>convertBits\<close>: the symbols read so far, as a number \<open>V\<close> of \<open>L\<close> bits, are
  the symbols emitted so far followed by the pending bits.
\<close>

definition generatorXor :: "32 word \<Rightarrow> 32 word" where
  "generatorXor t =
     foldl (\<lambda>c i. if drop_bit i t AND 1 = 1 then c XOR bech32Generator ! i else c) 0 [0..<5]"

definition packSymbols :: "byte list \<Rightarrow> 32 word" where
  "packSymbols cs = foldl (\<lambda>a c. push_bit 5 a XOR ucast c) 0 cs"

definition pending :: "64 word \<Rightarrow> nat \<Rightarrow> nat" where
  "pending acc bits = unat (take_bit bits acc)"

definition groupValue :: "nat \<Rightarrow> byte list \<Rightarrow> nat" where
  "groupValue k xs = foldl (\<lambda>a x. a * 2 ^ k + unat x) 0 xs"

definition convInv :: "nat \<Rightarrow> nat \<Rightarrow> nat \<Rightarrow> 64 word \<Rightarrow> nat \<Rightarrow> byte list \<Rightarrow> bool" where
  "convInv t V L acc bits res =
     (V = groupValue t res * 2 ^ bits + pending acc bits
      \<and> L = t * length res + bits
      \<and> (\<forall>x \<in> set res. unat x < 2 ^ t))"

section \<open>Later states of the store\<close>

text \<open>A session that exists and has been used.\<close>

definition sessionUsed :: "string \<Rightarrow> Store \<Rightarrow> bool" where
  "sessionUsed k1 s =
     (case withdraw_sessions s k1 of None \<Rightarrow> False | Some sess \<Rightarrow> used sess \<noteq> 0)"

text \<open>
  One statement or transaction on the store. Only \<^verbatim>\<open>InsertWithdrawSession\<close> and
  \<^verbatim>\<open>ValidateAndUseWithdrawSession\<close> write table \<^verbatim>\<open>withdraw_sessions\<close>; every other
  function of db.go, whatever it does to the other tables, is a step of the third kind.
  A later state is one reached by any number of steps.
\<close>

inductive storeStep :: "Store \<Rightarrow> Store \<Rightarrow> bool" where
  insertSession: "InsertWithdrawSession f k1 withdrawID s = (r, s') \<Longrightarrow> storeStep s s'"
| useSession: "ValidateAndUseWithdrawSession fs k1 withdrawID s = (r', s') \<Longrightarrow> storeStep s s'"
| otherTables: "withdraw_sessions s' = withdraw_sessions s \<Longrightarrow> storeStep s s'"



section \<open>Concrete inputs\<close>

text \<open>
  A funded voucher with a ten-second funding window, and the same voucher with a window
  of \<open>10\<^sup>1\<^sup>0\<close> seconds, which \<^verbatim>\<open>POST /api/vouchers/invoice\<close> accepts (it checks
  \<^verbatim>\<open>expiry_seconds\<close> only for \<open>\<le> 0\<close>).
\<close>

definition boundaryVoucher :: Voucher where
  "boundaryVoucher =
     \<lparr>PayID = ''p1'', WithdrawID = ''w1'', CreationHash = None,
      LightningAddress = ''alice@example.com'', TotalPaidMsats = 48000,
      LastFundedAt = Some 1700000000, ExpirySeconds = 10, Active = True,
      CreatedAt = 1700000000\<rparr>"

definition longWindowVoucher :: Voucher where
  "longWindowVoucher = boundaryVoucher\<lparr>ExpirySeconds := 10000000000\<rparr>"


definition capNetwork :: Network where
  "capNetwork =
     \<lparr>resolveResult = (\<lambda>a. Inr \<lparr>Callback = ''https://example.com/cb'',
                                  MinSendable = 1000, MaxSendable = 2500500\<rparr>),
      callbackResult = (\<lambda>cb amount. Inr ''lnbc1invoice''),
      payResult = (\<lambda>invoice. None)\<rparr>"


text \<open>
  A store with that voucher and three sessions: one fresh, one used, one of another
  voucher; and the store after the fresh one has been consumed.
\<close>

definition sessionStore :: Store where
  "sessionStore =
     \<lparr>vouchers = [boundaryVoucher],
      withdraw_sessions =
        [''k1fresh'' \<mapsto> \<lparr>sessionWithdrawID = ''w1'', used = 0\<rparr>,
         ''k1used'' \<mapsto> \<lparr>sessionWithdrawID = ''w1'', used = 1\<rparr>,
         ''k1other'' \<mapsto> \<lparr>sessionWithdrawID = ''w2'', used = 0\<rparr>]\<rparr>"

definition usedStore :: Store where
  "usedStore =
     sessionStore\<lparr>withdraw_sessions :=
       (withdraw_sessions sessionStore)
         (''k1fresh'' \<mapsto> \<lparr>sessionWithdrawID = ''w1'', used = 1\<rparr>)\<rparr>"

text \<open>
  Runs of the withdrawal callback five seconds after the funding: nothing fails; the
  gateway rejects the payment; the gateway call times out; the payment succeeds and the
  deactivating statement fails.
\<close>

definition quietEnv :: WithdrawEnv where
  "quietEnv =
     \<lparr>clock = instant 1700000005, sessionFaults = noSessionFaults, getVoucherFails = False,
      payInvoice = (\<lambda>pr. None), deactivateFault = None, txBeginFault = None,
      txDeactivateFault = None, txCommitFault = None\<rparr>"



definition diskFullEnv :: WithdrawEnv where
  "diskFullEnv = quietEnv\<lparr>txDeactivateFault := Some ''database or disk is full''\<rparr>"

text \<open>Runs of the refund job whose payment the gateway rejects, or that times out.\<close>

definition rejectingJob :: RefundEnv where
  "rejectingJob =
     \<lparr>jobClock = instant 1700000011, queryFault = None, jobDeactivateFault = (\<lambda>p. None),
      network = (\<lambda>p. capNetwork\<lparr>payResult :=
                         (\<lambda>invoice. Some (OtherError ''blitzi pay error: no route''))\<rparr>),
      reactivateFault = (\<lambda>p. None)\<rparr>"

definition timeoutJob :: RefundEnv where
  "timeoutJob =
     rejectingJob\<lparr>network := (\<lambda>p. capNetwork\<lparr>payResult :=
                         (\<lambda>invoice. Some (Wrapped ''blitzi POST /pay: '' DeadlineExceeded))\<rparr>)\<rparr>"


definition lockedJob :: RefundEnv where
  "lockedJob = rejectingJob\<lparr>reactivateFault := (\<lambda>p. Some ''database is locked'')\<rparr>"



section \<open>Properties of the activity predicate\<close>

lemma durationSeconds_fits: "fitsDuration n \<Longrightarrow> durationSeconds n = n * 1000000000"
  unfolding fitsDuration_def durationSeconds_def
  by (simp add: signed_take_bit_int_eq_self_iff)

lemma durationSeconds_le: "0 \<le> n \<Longrightarrow> durationSeconds n \<le> n * 1000000000"
proof (cases "fitsDuration n")
  case True
  then show ?thesis by (simp add: durationSeconds_fits)
next
  case False
  assume "0 \<le> n"
  with False have big: "(2::int) ^ 63 \<le> n * 1000000000"
    by (simp add: fitsDuration_def)
  have "durationSeconds n < 2 ^ 63"
    unfolding durationSeconds_def by (rule signed_take_bit_int_less_exp)
  with big show ?thesis by linarith
qed

lemma IsActive_eq_spec_fits:
  assumes "fitsDuration (VoucherAbsoluteExpirySecs cfg)" and "fitsDuration (ExpirySeconds v)"
  shows "IsActive cfg now v = isActiveSpec cfg now v"
  using assms
  by (auto simp: IsActive_def isActiveSpec_def instant_def durationSeconds_fits
      algebra_simps split: option.splits)


lemma unixSeconds_le: "unixSeconds now * 1000000000 \<le> now"
  unfolding unixSeconds_def by simp

text \<open>
  Claim C7 (the derived predicate equals \<open>active \<and> now \<le> created_at + absolute_expiry \<and>
  (last_funded_at is null \<or> now \<le> last_funded_at + expiry_seconds)\<close> for every voucher).
  The code computes each window as \<^verbatim>\<open>time.Duration(secs) * time.Second\<close>, which wraps
  around in 64 bits from 9223372037 seconds on. For a voucher with a window of
  \<open>10\<^sup>1\<^sup>0\<close> seconds, one second after its funding, \<^verbatim>\<open>IsActive\<close> is false while the
  stated predicate is true. (Lemma \<open>IsActive_eq_spec_fits\<close>: the two agree whenever both
  windows fit a \<^verbatim>\<open>Duration\<close>.)
\<close>

theorem IsActive_wraps_for_long_window:
  "IsActive defaultConfig (instant 1700000001) longWindowVoucher = False
   \<and> isActiveSpec defaultConfig (instant 1700000001) longWindowVoucher = True"
  by (simp add: IsActive_def isActiveSpec_def defaultConfig_def longWindowVoucher_def
      boundaryVoucher_def instant_def durationSeconds_def)

section \<open>Refund selection against the activity predicate\<close>

text \<open>
  Claim C10 as stated (every voucher the refund query selects is not is-active at the
  time of the query) fails at the very instant a window ends: the query compares with
  \<open>\<ge>\<close>, \<^verbatim>\<open>IsActive\<close> with \<^verbatim>\<open>now.After\<close>. Ten seconds to the nanosecond after its
  funding, the voucher with a ten-second window is selected and still active.
\<close>

theorem refund_selects_active_voucher_at_boundary:
  "refundSelected defaultConfig (instant 1700000010) boundaryVoucher
   \<and> IsActive defaultConfig (instant 1700000010) boundaryVoucher"
  by (simp add: IsActive_def refundSelected_def defaultConfig_def unixSeconds_def
      boundaryVoucher_def instant_def durationSeconds_def)

text \<open>
  Claim C10, amended: for windows that are not negative, a voucher the refund query
  selects at time \<open>now\<close> is not is-active at \<open>now\<close>, unless \<open>now\<close> is exactly the instant
  \<open>created_at + absolute_expiry\<close> or exactly the instant \<open>last_funded_at + expiry_seconds\<close>.
\<close>

theorem refund_selected_not_active_off_boundary:
  assumes sel: "refundSelected cfg now v"
    and abs0: "0 \<le> VoucherAbsoluteExpirySecs cfg"
    and exp0: "0 \<le> ExpirySeconds v"
    and offa: "now \<noteq> instant (CreatedAt v + VoucherAbsoluteExpirySecs cfg)"
    and offr: "\<forall>lf. LastFundedAt v = Some lf \<longrightarrow> now \<noteq> instant (lf + ExpirySeconds v)"
  shows "\<not> IsActive cfg now v"
proof
  assume act: "IsActive cfg now v"
  from sel consider
      (rel) lf where "LastFundedAt v = Some lf" "unixSeconds now - lf \<ge> ExpirySeconds v"
    | (abs) "unixSeconds now - CreatedAt v \<ge> VoucherAbsoluteExpirySecs cfg"
    by (auto simp: refundSelected_def split: option.splits)
  then show False
  proof cases
    case rel
    have "(lf + ExpirySeconds v) * 1000000000 \<le> unixSeconds now * 1000000000"
      using rel(2) by simp
    then have ge: "instant (lf + ExpirySeconds v) \<le> now"
      using unixSeconds_le [of now] by (simp add: instant_def)
    from act rel(1) have "now \<le> instant lf + durationSeconds (ExpirySeconds v)"
      by (simp add: IsActive_def split: if_splits)
    with durationSeconds_le [OF exp0] have "now \<le> instant (lf + ExpirySeconds v)"
      by (simp add: instant_def algebra_simps)
    with ge offr rel(1) show False by auto
  next
    case abs
    have "(CreatedAt v + VoucherAbsoluteExpirySecs cfg) * 1000000000
            \<le> unixSeconds now * 1000000000"
      using abs by simp
    then have ge: "instant (CreatedAt v + VoucherAbsoluteExpirySecs cfg) \<le> now"
      using unixSeconds_le [of now] by (simp add: instant_def)
    from act have "now \<le> instant (CreatedAt v) + durationSeconds (VoucherAbsoluteExpirySecs cfg)"
      by (simp add: IsActive_def split: if_splits)
    with durationSeconds_le [OF abs0]
    have "now \<le> instant (CreatedAt v + VoucherAbsoluteExpirySecs cfg)"
      by (simp add: instant_def algebra_simps)
    with ge offa show False by auto
  qed
qed

text \<open>The amended claim at a concrete input: the same voucher, one second later.\<close>

theorem refund_selected_not_active_off_boundary_witness:
  "refundSelected defaultConfig (instant 1700000011) boundaryVoucher
   \<and> \<not> IsActive defaultConfig (instant 1700000011) boundaryVoucher"
proof -
  have sel: "refundSelected defaultConfig (instant 1700000011) boundaryVoucher"
    by (simp add: refundSelected_def defaultConfig_def unixSeconds_def
        boundaryVoucher_def instant_def)
  have "\<not> IsActive defaultConfig (instant 1700000011) boundaryVoucher"
    by (rule refund_selected_not_active_off_boundary [OF sel])
      (simp_all add: defaultConfig_def boundaryVoucher_def instant_def)
  with sel show ?thesis by simp
qed

section \<open>The funding fee\<close>

text \<open>
  The rounding of the binary64 product shows at large amounts: at 8,796,093,022,208,249
  msats the exact product has the floor 35,184,372,088,832 and the rounded one
  35,184,372,088,833, so the fee is 35,184,372,090,833 with the minimum added.
\<close>

lemma feeMsats_rounds_product:
  "feeMsats defaultConfig 8796093022208249 = Some 35184372090833
   \<and> creditedMsats defaultConfig 8796093022208249 = Some 8760908650117416"
  by code_simp

text \<open>
  Claim C4 (the retained fee is \<open>max(minimum_fee, floor(amount \<times> fee_percent))\<close>, so that
  50,000 msats yield a fee of 2000 and 48,000 credited). The handler adds the two terms
  instead of taking their maximum: at 50,000 msats with the default settings it retains
  2200 and credits 47,800, where the stated rule gives 2000.
\<close>

theorem funding_fee_is_sum_not_max:
  "feeMsats defaultConfig 50000 = Some 2200
   \<and> creditedMsats defaultConfig 50000 = Some 47800
   \<and> feeSpec defaultConfig 50000 = 2000"
  by code_simp

section \<open>The refund payment: dust, cap and rounding\<close>









section \<open>Withdrawal sessions are consumed once\<close>

lemma VU_cases:
  assumes "ValidateAndUseWithdrawSession f k1 w s = ((p, e), s1)"
  shows "(e \<noteq> None \<and> s1 = s)
       \<or> (e = None \<and> (\<exists>sess v. withdraw_sessions s k1 = Some sess \<and> used sess = 0
             \<and> sessionWithdrawID sess = w
             \<and> find (\<lambda>v. WithdrawID v = w) (vouchers s) = Some v \<and> p = PayID v
             \<and> s1 = s\<lparr>withdraw_sessions := (withdraw_sessions s)(k1 \<mapsto> sess\<lparr>used := 1\<rparr>)\<rparr>))"
  using assms
  by (auto simp: ValidateAndUseWithdrawSession_def Let_def
      split: option.splits if_splits)


lemma VU_used_fails:
  assumes "sessionUsed k1 s"
  shows "\<exists>p m. ValidateAndUseWithdrawSession f k1 w s = ((p, Some m), s)"
  using assms
  by (auto simp: ValidateAndUseWithdrawSession_def sessionUsed_def Let_def
      split: option.splits if_splits)

lemma storeStep_keeps_used_row:
  assumes "storeStep s s'" and "withdraw_sessions s k1 = Some sess" and "used sess \<noteq> 0"
  shows "withdraw_sessions s' k1 = Some sess"
  using assms
proof (induction rule: storeStep.induct)
  case (insertSession f k withdrawID s r s')
  then show ?case
    by (auto simp: InsertWithdrawSession_def split: option.splits if_splits)
next
  case (useSession fs k withdrawID s r' s')
  then show ?case
    by (cases r') (auto dest!: VU_cases)
next
  case (otherTables s' s)
  then show ?case by simp
qed

lemma later_keeps_used_row:
  assumes "storeStep\<^sup>*\<^sup>* s s'" and "withdraw_sessions s k1 = Some sess" and "used sess \<noteq> 0"
  shows "withdraw_sessions s' k1 = Some sess"
  using assms
  by (induction rule: rtranclp_induct) (auto dest: storeStep_keeps_used_row)

lemma handler_used_session:
  assumes "sessionUsed k1 s"
  shows "\<exists>reason. handleLNURLWithdrawCallback cfg env w k1 pr s = (StatusError reason, [], s)
          \<and> (k1 \<noteq> '''' \<and> pr \<noteq> '''' \<longrightarrow>
               (\<exists>m. reason = ''invalid or already-used k1: '' @ m))"
proof -
  obtain p m where "ValidateAndUseWithdrawSession (sessionFaults env) k1 w s = ((p, Some m), s)"
    using VU_used_fails [OF assms] by blast
  then show ?thesis
    by (simp add: handleLNURLWithdrawCallback_def)
qed

lemma VU_used_exact:
  assumes "withdraw_sessions s k1 = Some sess" and "sessionWithdrawID sess = w"
    and "used sess \<noteq> 0" and "beginFault f = None" and "\<not> sessionScanFails f"
  shows "ValidateAndUseWithdrawSession f k1 w s = (('''', Some ''k1 already used''), s)"
  using assms by (simp add: ValidateAndUseWithdrawSession_def)

text \<open>
  Claim C1: once \<^verbatim>\<open>ValidateAndUseWithdrawSession\<close> has succeeded for a \<open>k1\<close>, then in
  every later state of the store
  \<^item> the same call fails again for that \<open>k1\<close>, whatever the \<^verbatim>\<open>withdraw_id\<close>, and changes
    nothing;
  \<^item> the withdrawal callback presenting that \<open>k1\<close> answers with an error, leaves the store
    as it is and makes no call at all, so the gateway's \<^verbatim>\<open>PayInvoice\<close> is not reached;
    when both parameters are present the error is the session error
    \<open>invalid or already-used k1: ...\<close>, and for the session's own \<^verbatim>\<open>withdraw_id\<close> with a
    working store it is \<open>k1 already used\<close>.
\<close>

theorem k1_consumed_at_most_once:
  assumes first: "ValidateAndUseWithdrawSession fs k1 withdrawID s0 = ((payID, None), s1)"
    and later: "storeStep\<^sup>*\<^sup>* s1 s2"
  shows "(\<exists>p m. ValidateAndUseWithdrawSession fs' k1 withdrawID' s2 = ((p, Some m), s2))
       \<and> (\<exists>reason. handleLNURLWithdrawCallback cfg env withdrawID' k1 pr s2
                      = (StatusError reason, [], s2)
              \<and> (k1 \<noteq> '''' \<and> pr \<noteq> '''' \<longrightarrow>
                   (\<exists>m. reason = ''invalid or already-used k1: '' @ m))
              \<and> (k1 \<noteq> '''' \<and> pr \<noteq> '''' \<and> withdrawID' = withdrawID
                  \<and> beginFault (sessionFaults env) = None
                  \<and> \<not> sessionScanFails (sessionFaults env) \<longrightarrow>
                   reason = ''invalid or already-used k1: '' @ ''k1 already used''))"
proof -
  from VU_cases [OF first] obtain sess where
    row1: "withdraw_sessions s1 k1 = Some (sess\<lparr>used := 1\<rparr>)"
    and wid: "sessionWithdrawID sess = withdrawID"
    by auto
  from later row1 have row2: "withdraw_sessions s2 k1 = Some (sess\<lparr>used := 1\<rparr>)"
    by (auto dest: later_keeps_used_row)
  then have u: "sessionUsed k1 s2" by (simp add: sessionUsed_def)
  from handler_used_session [OF u, of cfg env withdrawID' pr] obtain reason where
    r: "handleLNURLWithdrawCallback cfg env withdrawID' k1 pr s2 = (StatusError reason, [], s2)"
    and pre: "k1 \<noteq> '''' \<and> pr \<noteq> '''' \<longrightarrow> (\<exists>m. reason = ''invalid or already-used k1: '' @ m)"
    by blast
  have exact: "reason = ''invalid or already-used k1: '' @ ''k1 already used''"
    if "k1 \<noteq> '''' \<and> pr \<noteq> '''' \<and> withdrawID' = withdrawID
        \<and> beginFault (sessionFaults env) = None \<and> \<not> sessionScanFails (sessionFaults env)"
  proof -
    from that wid have
      "ValidateAndUseWithdrawSession (sessionFaults env) k1 withdrawID' s2
         = (('''', Some ''k1 already used''), s2)"
      by (intro VU_used_exact [OF row2]) simp_all
    with that have "handleLNURLWithdrawCallback cfg env withdrawID' k1 pr s2
        = (StatusError (''invalid or already-used k1: '' @ ''k1 already used''), [], s2)"
      by (simp add: handleLNURLWithdrawCallback_def)
    with r show ?thesis by simp
  qed
  from VU_used_fails [OF u] r pre exact show ?thesis by blast
qed

text \<open>The fresh session of the example store, consumed and presented again.\<close>

theorem k1_consumed_at_most_once_witness:
  "ValidateAndUseWithdrawSession noSessionFaults ''k1fresh'' ''w1'' sessionStore
     = ((''p1'', None), usedStore)
   \<and> handleLNURLWithdrawCallback defaultConfig quietEnv ''w1'' ''k1fresh'' ''lnbc1'' usedStore
     = (StatusError ''invalid or already-used k1: k1 already used'', [], usedStore)"
proof -
  have first: "ValidateAndUseWithdrawSession noSessionFaults ''k1fresh'' ''w1'' sessionStore
     = ((''p1'', None), usedStore)"
    by (simp add: ValidateAndUseWithdrawSession_def noSessionFaults_def sessionStore_def
        usedStore_def boundaryVoucher_def)
  have later: "storeStep\<^sup>*\<^sup>* usedStore usedStore" by simp
  have env: "beginFault (sessionFaults quietEnv) = None"
    "\<not> sessionScanFails (sessionFaults quietEnv)"
    by (simp_all add: quietEnv_def noSessionFaults_def)
  from k1_consumed_at_most_once [OF first later, of noSessionFaults "''w1''" defaultConfig
      quietEnv "''lnbc1''"] env
  have "handleLNURLWithdrawCallback defaultConfig quietEnv ''w1'' ''k1fresh'' ''lnbc1'' usedStore
     = (StatusError ''invalid or already-used k1: k1 already used'', [], usedStore)"
    by auto
  with first show ?thesis by simp
qed

section \<open>The three session failures, as the caller sees them\<close>

text \<open>
  Claim C9 as stated (the three failure modes produce the same externally visible error
  response) fails: the handler appends the text of the validation error to the reason it
  sends, so an unknown \<open>k1\<close> and a used \<open>k1\<close> get different responses.
\<close>

theorem session_failure_responses_differ:
  "fst (handleLNURLWithdrawCallback defaultConfig quietEnv ''w1'' ''k1unknown'' ''lnbc1''
          sessionStore)
   \<noteq> fst (handleLNURLWithdrawCallback defaultConfig quietEnv ''w1'' ''k1used'' ''lnbc1''
          sessionStore)"
  by (simp add: handleLNURLWithdrawCallback_def ValidateAndUseWithdrawSession_def
      sessionStore_def quietEnv_def noSessionFaults_def)

text \<open>
  Claim C9, amended: with both parameters present and a store that answers, session
  validation fails for an unknown \<open>k1\<close>, for a \<open>k1\<close> of another \<^verbatim>\<open>withdraw_id\<close> and for a
  used \<open>k1\<close>, each time before any gateway call and without a change to the store; the
  response is an LNURL error whose reason starts with \<open>invalid or already-used k1: \<close> and
  ends with the text of the failure (\<open>k1 not found\<close>, \<open>k1 mismatch\<close>, \<open>k1 already used\<close>).
\<close>

theorem session_failures_distinct_reasons:
  assumes "k1 \<noteq> ''''" and "pr \<noteq> ''''"
    and "beginFault (sessionFaults env) = None" and "\<not> sessionScanFails (sessionFaults env)"
  shows "(withdraw_sessions s k1 = None \<longrightarrow>
            handleLNURLWithdrawCallback cfg env withdrawID k1 pr s
              = (StatusError (''invalid or already-used k1: '' @ ''k1 not found''), [], s))
       \<and> (\<forall>sess. withdraw_sessions s k1 = Some sess \<and> sessionWithdrawID sess \<noteq> withdrawID \<longrightarrow>
            handleLNURLWithdrawCallback cfg env withdrawID k1 pr s
              = (StatusError (''invalid or already-used k1: '' @ ''k1 mismatch''), [], s))
       \<and> (\<forall>sess. withdraw_sessions s k1 = Some sess \<and> sessionWithdrawID sess = withdrawID
                 \<and> used sess \<noteq> 0 \<longrightarrow>
            handleLNURLWithdrawCallback cfg env withdrawID k1 pr s
              = (StatusError (''invalid or already-used k1: '' @ ''k1 already used''), [], s))"
  using assms
  by (simp add: handleLNURLWithdrawCallback_def ValidateAndUseWithdrawSession_def)

text \<open>The three failures on the example store.\<close>

theorem session_failures_distinct_reasons_witness:
  "handleLNURLWithdrawCallback defaultConfig quietEnv ''w1'' ''k1unknown'' ''lnbc1'' sessionStore
     = (StatusError ''invalid or already-used k1: k1 not found'', [], sessionStore)
   \<and> handleLNURLWithdrawCallback defaultConfig quietEnv ''w1'' ''k1other'' ''lnbc1'' sessionStore
     = (StatusError ''invalid or already-used k1: k1 mismatch'', [], sessionStore)
   \<and> handleLNURLWithdrawCallback defaultConfig quietEnv ''w1'' ''k1used'' ''lnbc1'' sessionStore
     = (StatusError ''invalid or already-used k1: k1 already used'', [], sessionStore)"
proof -
  have env: "beginFault (sessionFaults quietEnv) = None"
    "\<not> sessionScanFails (sessionFaults quietEnv)"
    by (simp_all add: quietEnv_def noSessionFaults_def)
  have rows: "withdraw_sessions sessionStore ''k1unknown'' = None"
    "withdraw_sessions sessionStore ''k1other'' = Some \<lparr>sessionWithdrawID = ''w2'', used = 0\<rparr>"
    "withdraw_sessions sessionStore ''k1used'' = Some \<lparr>sessionWithdrawID = ''w1'', used = 1\<rparr>"
    by (simp_all add: sessionStore_def)
  have a: "handleLNURLWithdrawCallback defaultConfig quietEnv ''w1'' ''k1unknown'' ''lnbc1''
      sessionStore = (StatusError ''invalid or already-used k1: k1 not found'', [], sessionStore)"
    using session_failures_distinct_reasons [OF _ _ env, of "''k1unknown''" "''lnbc1''"
        sessionStore defaultConfig "''w1''"] rows(1)
    by simp
  have b: "handleLNURLWithdrawCallback defaultConfig quietEnv ''w1'' ''k1other'' ''lnbc1''
      sessionStore = (StatusError ''invalid or already-used k1: k1 mismatch'', [], sessionStore)"
    using session_failures_distinct_reasons [OF _ _ env, of "''k1other''" "''lnbc1''"
        sessionStore defaultConfig "''w1''"] rows(2)
    by simp
  have c: "handleLNURLWithdrawCallback defaultConfig quietEnv ''w1'' ''k1used'' ''lnbc1''
      sessionStore
      = (StatusError ''invalid or already-used k1: k1 already used'', [], sessionStore)"
    using session_failures_distinct_reasons [OF _ _ env, of "''k1used''" "''lnbc1''"
        sessionStore defaultConfig "''w1''"] rows(3)
    by simp
  from a b c show ?thesis by simp
qed

section \<open>The withdrawal callback after the payment attempt\<close>

lemma find_deactivateRows:
  "find (\<lambda>v. WithdrawID v = w) (deactivateRows p rows)
     = map_option (\<lambda>v. if PayID v = p then v\<lparr>TotalPaidMsats := 0, Active := False\<rparr> else v)
         (find (\<lambda>v. WithdrawID v = w) rows)"
  unfolding deactivateRows_def by (induction rows) auto

lemma in_deactivateRows:
  "v \<in> set (deactivateRows p rows) \<Longrightarrow>
     \<exists>u \<in> set rows. v = (if PayID u = p then u\<lparr>TotalPaidMsats := 0, Active := False\<rparr> else u)"
  unfolding deactivateRows_def set_map by (erule imageE) (rule bexI)

lemma in_reactivateRows:
  "v \<in> set (reactivateRows p b rows) \<Longrightarrow>
     \<exists>u \<in> set rows. v = (if PayID u = p then u\<lparr>TotalPaidMsats := b, Active := True\<rparr> else u)"
  unfolding reactivateRows_def set_map by (erule imageE) (rule bexI)

lemma deactivateRows_rows:
  assumes "v \<in> set (deactivateRows p rows)" and "PayID v = p"
  shows "\<not> Active v \<and> TotalPaidMsats v = 0"
proof -
  from in_deactivateRows [OF assms(1)] obtain u where
    v: "v = (if PayID u = p then u\<lparr>TotalPaidMsats := 0, Active := False\<rparr> else u)"
    by blast
  show ?thesis
  proof (cases "PayID u = p")
    case True
    have "v = u\<lparr>TotalPaidMsats := 0, Active := False\<rparr>"
      by (subst v) (rule if_P [OF True])
    then show ?thesis by simp
  next
    case False
    have "v = u" by (subst v) (rule if_not_P [OF False])
    with False assms(2) show ?thesis by simp
  qed
qed

lemma reactivateRows_rows:
  assumes "v \<in> set (reactivateRows p b rows)" and "PayID v = p"
  shows "Active v \<and> TotalPaidMsats v = b"
proof -
  from in_reactivateRows [OF assms(1)] obtain u where
    v: "v = (if PayID u = p then u\<lparr>TotalPaidMsats := b, Active := True\<rparr> else u)"
    by blast
  show ?thesis
  proof (cases "PayID u = p")
    case True
    have "v = u\<lparr>TotalPaidMsats := b, Active := True\<rparr>"
      by (subst v) (rule if_P [OF True])
    then show ?thesis by simp
  next
    case False
    have "v = u" by (subst v) (rule if_not_P [OF False])
    with False assms(2) show ?thesis by simp
  qed
qed


text \<open>The handler from the point where the session is consumed and the voucher read.\<close>

lemma handler_after_checks:
  assumes "k1 \<noteq> ''''" and "pr \<noteq> ''''"
    and "ValidateAndUseWithdrawSession (sessionFaults env) k1 w s = ((p, None), s1)"
    and "GetVoucherByWithdrawID (getVoucherFails env) w s1 = Some v"
    and "IsActive cfg (clock env) v" and "0 < TotalPaidMsats v"
  shows "handleLNURLWithdrawCallback cfg env w k1 pr s =
           (case payInvoice env pr of
              Some err \<Rightarrow>
                if ambiguous err
                then (case DeactivateVoucher (deactivateFault env) p s1 of
                        (Some m, s2) \<Rightarrow>
                          (StatusError ''payment timed out'', [PayInvoiceCall pr], s2)
                      | (None, s2) \<Rightarrow>
                          (StatusError ''payment timed out'',
                           [PayInvoiceCall pr, Deactivated p], s2))
                else (StatusError ''payment failed'', [PayInvoiceCall pr], s1)
            | None \<Rightarrow>
                if txBeginFault env = None \<and> txDeactivateFault env = None
                   \<and> txCommitFault env = None
                then (StatusOK, [PayInvoiceCall pr, Deactivated p],
                      s1\<lparr>vouchers := deactivateRows p (vouchers s1)\<rparr>)
                else (StatusOK, [PayInvoiceCall pr], s1))"
  using assms by (simp add: handleLNURLWithdrawCallback_def split: option.split)

text \<open>A run that did not pass every check has made no call.\<close>

lemma handler_stops_early:
  assumes "ValidateAndUseWithdrawSession (sessionFaults env) k1 w s = ((p, e), s1)"
    and "k1 = '''' \<or> pr = '''' \<or> e \<noteq> None
         \<or> (case GetVoucherByWithdrawID (getVoucherFails env) w s1 of
               None \<Rightarrow> True
             | Some v \<Rightarrow> \<not> IsActive cfg (clock env) v \<or> TotalPaidMsats v \<le> 0)"
  shows "fst (snd (handleLNURLWithdrawCallback cfg env w k1 pr s)) = []"
proof (cases "k1 = '''' \<or> pr = ''''")
  case True
  then show ?thesis by (simp add: handleLNURLWithdrawCallback_def)
next
  case ne: False
  show ?thesis
  proof (cases e)
    case (Some m)
    with ne assms(1) show ?thesis by (simp add: handleLNURLWithdrawCallback_def)
  next
    case None
    show ?thesis
    proof (cases "GetVoucherByWithdrawID (getVoucherFails env) w s1")
      case gn: None
      with ne None assms(1) show ?thesis by (simp add: handleLNURLWithdrawCallback_def)
    next
      case (Some v)
      with ne None assms(2) have "\<not> IsActive cfg (clock env) v \<or> TotalPaidMsats v \<le> 0"
        by simp
      with ne None Some assms(1) show ?thesis
        by (auto simp add: handleLNURLWithdrawCallback_def)
    qed
  qed
qed

text \<open>What a run that reached the gateway has passed.\<close>

lemma handler_reached_payment:
  assumes run: "handleLNURLWithdrawCallback cfg env w k1 pr s = (resp, evs, s')"
    and tried: "PayInvoiceCall pr \<in> set evs"
  shows "\<exists>sess v s1. withdraw_sessions s k1 = Some sess \<and> used sess = 0
           \<and> ValidateAndUseWithdrawSession (sessionFaults env) k1 w s = ((PayID v, None), s1)
           \<and> vouchers s1 = vouchers s
           \<and> find (\<lambda>v. WithdrawID v = w) (vouchers s) = Some v
           \<and> IsActive cfg (clock env) v \<and> 0 < TotalPaidMsats v
           \<and> (resp, evs, s') =
               (case payInvoice env pr of
                  Some err \<Rightarrow>
                    if ambiguous err
                    then (case DeactivateVoucher (deactivateFault env) (PayID v) s1 of
                            (Some m, s2) \<Rightarrow>
                              (StatusError ''payment timed out'', [PayInvoiceCall pr], s2)
                          | (None, s2) \<Rightarrow>
                              (StatusError ''payment timed out'',
                               [PayInvoiceCall pr, Deactivated (PayID v)], s2))
                    else (StatusError ''payment failed'', [PayInvoiceCall pr], s1)
                | None \<Rightarrow>
                    if txBeginFault env = None \<and> txDeactivateFault env = None
                       \<and> txCommitFault env = None
                    then (StatusOK, [PayInvoiceCall pr, Deactivated (PayID v)],
                          s1\<lparr>vouchers := deactivateRows (PayID v) (vouchers s1)\<rparr>)
                    else (StatusOK, [PayInvoiceCall pr], s1))"
proof -
  obtain p e s1 where vu: "ValidateAndUseWithdrawSession (sessionFaults env) k1 w s = ((p, e), s1)"
    by (metis prod.exhaust)
  from run tried have nonempty: "fst (snd (handleLNURLWithdrawCallback cfg env w k1 pr s)) \<noteq> []"
    by auto
  have passed: "\<not> (k1 = '''' \<or> pr = '''' \<or> e \<noteq> None
         \<or> (case GetVoucherByWithdrawID (getVoucherFails env) w s1 of
               None \<Rightarrow> True
             | Some v \<Rightarrow> \<not> IsActive cfg (clock env) v \<or> TotalPaidMsats v \<le> 0))"
    using handler_stops_early [OF vu] nonempty by blast
  then have ne: "k1 \<noteq> ''''" "pr \<noteq> ''''" and e: "e = None" by simp_all
  from passed obtain v where get: "GetVoucherByWithdrawID (getVoucherFails env) w s1 = Some v"
    and act: "IsActive cfg (clock env) v" and bal: "0 < TotalPaidMsats v"
    by (cases "GetVoucherByWithdrawID (getVoucherFails env) w s1") auto
  from VU_cases [OF vu] e obtain sess v0 where
    sess: "withdraw_sessions s k1 = Some sess" "used sess = 0"
    and v0: "find (\<lambda>v. WithdrawID v = w) (vouchers s) = Some v0" "p = PayID v0"
    and s1: "vouchers s1 = vouchers s"
    by auto
  from get v0 s1 have vv: "v0 = v"
    by (simp add: GetVoucherByWithdrawID_def split: if_splits)
  from vu e v0 vv have vu': "ValidateAndUseWithdrawSession (sessionFaults env) k1 w s
       = ((PayID v, None), s1)" by simp
  note unfolded = handler_after_checks [OF ne vu' get act bal]
  from sess vu' s1 v0(1) vv act bal unfolded run show ?thesis
    by (intro exI [of _ sess] exI [of _ v] exI [of _ s1]) simp
qed

















text \<open>
  Claim C6: in a run of the withdrawal callback whose \<^verbatim>\<open>PayInvoice\<close> succeeded, the
  response is \<^verbatim>\<open>{"status":"OK"}\<close> whatever happens to the deactivating transaction; when
  the transaction begins, executes and commits, the voucher is deactivated (balance
  zero, active cleared), and when any of the three fails, table \<^verbatim>\<open>vouchers\<close> is
  unchanged.
\<close>

theorem withdraw_success_reports_ok:
  assumes run: "handleLNURLWithdrawCallback cfg env withdrawID k1 pr s = (resp, evs, s')"
    and tried: "PayInvoiceCall pr \<in> set evs"
    and paid: "payInvoice env pr = None"
  shows "resp = StatusOK
       \<and> (txBeginFault env = None \<and> txDeactivateFault env = None \<and> txCommitFault env = None
            \<longrightarrow> (\<exists>v. GetVoucherByWithdrawID False withdrawID s' = Some v
                     \<and> \<not> Active v \<and> TotalPaidMsats v = 0))
       \<and> (\<not> (txBeginFault env = None \<and> txDeactivateFault env = None
               \<and> txCommitFault env = None)
            \<longrightarrow> vouchers s' = vouchers s)"
proof -
  from handler_reached_payment [OF run tried] paid obtain v s1 where
    s1: "vouchers s1 = vouchers s"
    and v: "find (\<lambda>v. WithdrawID v = withdrawID) (vouchers s) = Some v"
    and out: "(resp, evs, s') =
        (if txBeginFault env = None \<and> txDeactivateFault env = None \<and> txCommitFault env = None
         then (StatusOK, [PayInvoiceCall pr, Deactivated (PayID v)],
               s1\<lparr>vouchers := deactivateRows (PayID v) (vouchers s1)\<rparr>)
         else (StatusOK, [PayInvoiceCall pr], s1))"
    by auto
  show ?thesis
  proof (cases "txBeginFault env = None \<and> txDeactivateFault env = None
                 \<and> txCommitFault env = None")
    case True
    with out s1 have "vouchers s' = deactivateRows (PayID v) (vouchers s)" "resp = StatusOK"
      by simp_all
    with v True show ?thesis
      by (simp add: GetVoucherByWithdrawID_def find_deactivateRows)
  next
    case False
    with out s1 show ?thesis by auto
  qed
qed

lemmas withdraw_eval =
  handleLNURLWithdrawCallback_def ValidateAndUseWithdrawSession_def
  GetVoucherByWithdrawID_def IsActive_def DeactivateVoucher_def deactivateRows_def
  sessionStore_def quietEnv_def noSessionFaults_def boundaryVoucher_def defaultConfig_def
  instant_def durationSeconds_def ambiguous_def

section \<open>The claims about the withdrawal callback at concrete runs\<close>



text \<open>A successful payment with a failing and with a working deactivation.\<close>

theorem withdraw_success_reports_ok_witness:
  "fst (handleLNURLWithdrawCallback defaultConfig diskFullEnv ''w1'' ''k1fresh'' ''lnbc1''
          sessionStore) = StatusOK
   \<and> vouchers (snd (snd (handleLNURLWithdrawCallback defaultConfig diskFullEnv ''w1''
          ''k1fresh'' ''lnbc1'' sessionStore))) = vouchers sessionStore
   \<and> fst (handleLNURLWithdrawCallback defaultConfig quietEnv ''w1'' ''k1fresh'' ''lnbc1''
          sessionStore) = StatusOK
   \<and> (\<exists>v. GetVoucherByWithdrawID False ''w1''
             (snd (snd (handleLNURLWithdrawCallback defaultConfig quietEnv ''w1'' ''k1fresh''
                ''lnbc1'' sessionStore))) = Some v
          \<and> \<not> Active v \<and> TotalPaidMsats v = 0)"
proof -
  let ?d = "handleLNURLWithdrawCallback defaultConfig diskFullEnv ''w1'' ''k1fresh'' ''lnbc1''
              sessionStore"
  let ?q = "handleLNURLWithdrawCallback defaultConfig quietEnv ''w1'' ''k1fresh'' ''lnbc1''
              sessionStore"
  have run_d: "?d = (fst ?d, fst (snd ?d), snd (snd ?d))" by simp
  have run_q: "?q = (fst ?q, fst (snd ?q), snd (snd ?q))" by simp
  have tried_d: "PayInvoiceCall ''lnbc1'' \<in> set (fst (snd ?d))"
    by (simp add: withdraw_eval diskFullEnv_def)
  have tried_q: "PayInvoiceCall ''lnbc1'' \<in> set (fst (snd ?q))"
    by (simp add: withdraw_eval)
  have paid_d: "payInvoice diskFullEnv ''lnbc1'' = None"
    by (simp add: diskFullEnv_def quietEnv_def)
  have paid_q: "payInvoice quietEnv ''lnbc1'' = None"
    by (simp add: quietEnv_def)
  have fault_d: "txDeactivateFault diskFullEnv \<noteq> None"
    by (simp add: diskFullEnv_def quietEnv_def)
  have fault_q: "txBeginFault quietEnv = None" "txDeactivateFault quietEnv = None"
    "txCommitFault quietEnv = None"
    by (simp_all add: quietEnv_def)
  from withdraw_success_reports_ok [OF run_d tried_d paid_d] fault_d
  have a: "fst ?d = StatusOK" "vouchers (snd (snd ?d)) = vouchers sessionStore"
    by simp_all
  from withdraw_success_reports_ok [OF run_q tried_q paid_q] fault_q
  have b: "fst ?q = StatusOK"
    "\<exists>v. GetVoucherByWithdrawID False ''w1'' (snd (snd ?q)) = Some v
          \<and> \<not> Active v \<and> TotalPaidMsats v = 0"
    by simp_all
  from a b show ?thesis by simp
qed

section \<open>The refund job\<close>

text \<open>
  Claim C3, amended: for a voucher \<open>v\<close> that the refund job processes,
  \<^item> every trace that is not empty starts with the deactivation of \<open>v\<close>, which the store
    has executed: all that follows (resolution, invoice request, payment) happens on a
    store in which the voucher has balance zero and is not active; when the
    deactivation fails, nothing is attempted;
  \<^item> when the refund is paid, and when it ends in an ambiguous error, the voucher stays
    deactivated;
  \<^item> when it ends in any other error, the job calls \<^verbatim>\<open>ReactivateVoucher\<close>: when the store
    executes it, the voucher is active again with the balance the job had read; when the
    store refuses it, the job only logs the failure and the voucher stays deactivated.
\<close>

theorem refund_deactivates_before_paying:
  assumes run: "refundVoucher env v s = (evs, s')"
  shows "(evs \<noteq> [] \<longrightarrow>
            jobDeactivateFault env (PayID v) = None
            \<and> (\<exists>calls. evs = Deactivated (PayID v) # calls)
            \<and> (\<forall>u \<in> set (vouchers (snd (DeactivateVoucher None (PayID v) s))).
                  PayID u = PayID v \<longrightarrow> \<not> Active u \<and> TotalPaidMsats u = 0))
       \<and> (jobDeactivateFault env (PayID v) \<noteq> None \<longrightarrow> evs = [] \<and> s' = s)
       \<and> (jobDeactivateFault env (PayID v) = None
            \<and> fst (RefundToLightningAddress (network env (PayID v)) (LightningAddress v)
                      (TotalPaidMsats v)) = None \<longrightarrow>
            vouchers s' = deactivateRows (PayID v) (vouchers s)
            \<and> (\<forall>u \<in> set (vouchers s').
                  PayID u = PayID v \<longrightarrow> \<not> Active u \<and> TotalPaidMsats u = 0))
       \<and> (\<forall>err. jobDeactivateFault env (PayID v) = None
              \<and> fst (RefundToLightningAddress (network env (PayID v)) (LightningAddress v)
                      (TotalPaidMsats v)) = Some err \<longrightarrow>
            (if ambiguous err
             then vouchers s' = deactivateRows (PayID v) (vouchers s)
                  \<and> (\<forall>u \<in> set (vouchers s').
                        PayID u = PayID v \<longrightarrow> \<not> Active u \<and> TotalPaidMsats u = 0)
             else (reactivateFault env (PayID v) = None \<longrightarrow>
                     vouchers s' = reactivateRows (PayID v) (TotalPaidMsats v)
                                     (deactivateRows (PayID v) (vouchers s))
                     \<and> (\<forall>u \<in> set (vouchers s').
                           PayID u = PayID v \<longrightarrow>
                             Active u \<and> TotalPaidMsats u = TotalPaidMsats v))
                \<and> (reactivateFault env (PayID v) \<noteq> None \<longrightarrow>
                     vouchers s' = deactivateRows (PayID v) (vouchers s)
                     \<and> (\<forall>u \<in> set (vouchers s').
                           PayID u = PayID v \<longrightarrow> \<not> Active u \<and> TotalPaidMsats u = 0))))"
proof (cases "jobDeactivateFault env (PayID v)")
  case (Some m)
  with run have "evs = []" "s' = s" by (simp_all add: refundVoucher_def DeactivateVoucher_def)
  with Some show ?thesis by simp
next
  case None
  define s1 where "s1 = s\<lparr>vouchers := deactivateRows (PayID v) (vouchers s)\<rparr>"
  obtain r calls where
    refund: "RefundToLightningAddress (network env (PayID v)) (LightningAddress v)
               (TotalPaidMsats v) = (r, calls)"
    by (metis prod.exhaust)
  have d: "DeactivateVoucher None (PayID v) s = (None, s1)"
    by (simp add: DeactivateVoucher_def s1_def)
  have rows1: "\<forall>u \<in> set (vouchers s1). PayID u = PayID v \<longrightarrow> \<not> Active u \<and> TotalPaidMsats u = 0"
    using deactivateRows_rows by (auto simp: s1_def)
  have hd: "\<exists>calls. evs = Deactivated (PayID v) # calls"
  proof (cases r)
    case rn: None
    with run None d refund show ?thesis by (auto simp add: refundVoucher_def)
  next
    case (Some err)
    show ?thesis
    proof (cases "reactivateFault env (PayID v)")
      case rf: None
      with run None d refund Some show ?thesis
        by (auto simp add: refundVoucher_def ReactivateVoucher_def split: if_splits)
    next
      case (Some m)
      with run None d refund \<open>r = Some err\<close> show ?thesis
        by (auto simp add: refundVoucher_def ReactivateVoucher_def split: if_splits)
    qed
  qed
  have stays: "vouchers s' = deactivateRows (PayID v) (vouchers s)
             \<and> (\<forall>u \<in> set (vouchers s').
                   PayID u = PayID v \<longrightarrow> \<not> Active u \<and> TotalPaidMsats u = 0)"
    if "s' = s1"
    using that rows1 by (simp add: s1_def)
  have paid: "vouchers s' = deactivateRows (PayID v) (vouchers s)
             \<and> (\<forall>u \<in> set (vouchers s').
                   PayID u = PayID v \<longrightarrow> \<not> Active u \<and> TotalPaidMsats u = 0)"
    if "r = None"
  proof -
    from run None d refund that have "s' = s1" by (simp add: refundVoucher_def)
    then show ?thesis by (rule stays)
  qed
  have fin: "if ambiguous err
             then vouchers s' = deactivateRows (PayID v) (vouchers s)
                  \<and> (\<forall>u \<in> set (vouchers s').
                        PayID u = PayID v \<longrightarrow> \<not> Active u \<and> TotalPaidMsats u = 0)
             else (reactivateFault env (PayID v) = None \<longrightarrow>
                     vouchers s' = reactivateRows (PayID v) (TotalPaidMsats v)
                                     (deactivateRows (PayID v) (vouchers s))
                     \<and> (\<forall>u \<in> set (vouchers s').
                           PayID u = PayID v \<longrightarrow>
                             Active u \<and> TotalPaidMsats u = TotalPaidMsats v))
                \<and> (reactivateFault env (PayID v) \<noteq> None \<longrightarrow>
                     vouchers s' = deactivateRows (PayID v) (vouchers s)
                     \<and> (\<forall>u \<in> set (vouchers s').
                           PayID u = PayID v \<longrightarrow> \<not> Active u \<and> TotalPaidMsats u = 0))"
    if "r = Some err" for err
  proof (cases "ambiguous err")
    case True
    with run None d refund that have "s' = s1" by (simp add: refundVoucher_def)
    with True stays show ?thesis by simp
  next
    case False
    show ?thesis
    proof (cases "reactivateFault env (PayID v)")
      case (Some m)
      with run None d refund that False have "s' = s1"
        by (simp add: refundVoucher_def ReactivateVoucher_def)
      with False Some stays show ?thesis by simp
    next
      case rf: None
      with run None d refund that False
      have "s' = s1\<lparr>vouchers := reactivateRows (PayID v) (TotalPaidMsats v) (vouchers s1)\<rparr>"
        by (simp add: refundVoucher_def ReactivateVoucher_def)
      then have eq: "vouchers s' = reactivateRows (PayID v) (TotalPaidMsats v)
                                  (deactivateRows (PayID v) (vouchers s))"
        by (simp add: s1_def)
      have "\<forall>u \<in> set (vouchers s'). PayID u = PayID v \<longrightarrow>
              Active u \<and> TotalPaidMsats u = TotalPaidMsats v"
        unfolding eq using reactivateRows_rows by blast
      with False rf eq show ?thesis by simp
    qed
  qed
  from None hd rows1 d fin paid refund show ?thesis by simp
qed

text \<open>
  Claim C3 as stated (a definitive payment failure reactivates the voucher with its
  original balance) fails when the store refuses the reactivating statement: the gateway
  rejects the refund, the job logs the failed reactivation, and the voucher stays
  deactivated with balance zero.
\<close>

theorem refund_rejected_with_failed_reactivation:
  "fst (RefundToLightningAddress (network lockedJob ''p1'') ''alice@example.com'' 48000)
     = Some (OtherError ''blitzi pay error: no route'')
   \<and> \<not> ambiguous (OtherError ''blitzi pay error: no route'')
   \<and> refundVoucher lockedJob boundaryVoucher sessionStore
       = ([Deactivated ''p1'', ResolveCall ''alice@example.com'',
           CallbackCall ''https://example.com/cb'' 48000, PayInvoiceCall ''lnbc1invoice''],
          sessionStore\<lparr>vouchers := [boundaryVoucher\<lparr>TotalPaidMsats := 0, Active := False\<rparr>]\<rparr>)"
  by (simp add: refundVoucher_def lockedJob_def rejectingJob_def DeactivateVoucher_def
      ReactivateVoucher_def RefundToLightningAddress_def capNetwork_def ambiguous_def
      deactivateRows_def sessionStore_def boundaryVoucher_def)

text \<open>
  A rejected refund payment, a timed-out one, and a rejected one with a store that
  refuses the reactivation, for the example voucher.
\<close>

theorem refund_deactivates_before_paying_witness:
  "refundVoucher rejectingJob boundaryVoucher sessionStore
     = ([Deactivated ''p1'', ResolveCall ''alice@example.com'',
         CallbackCall ''https://example.com/cb'' 48000, PayInvoiceCall ''lnbc1invoice'',
         Reactivated ''p1'' 48000], sessionStore)
   \<and> jobDeactivateFault rejectingJob ''p1'' = None
   \<and> vouchers (snd (refundVoucher timeoutJob boundaryVoucher sessionStore))
     = [boundaryVoucher\<lparr>TotalPaidMsats := 0, Active := False\<rparr>]
   \<and> vouchers (snd (refundVoucher lockedJob boundaryVoucher sessionStore))
     = [boundaryVoucher\<lparr>TotalPaidMsats := 0, Active := False\<rparr>]"
proof -
  have run1: "refundVoucher rejectingJob boundaryVoucher sessionStore
     = ([Deactivated ''p1'', ResolveCall ''alice@example.com'',
         CallbackCall ''https://example.com/cb'' 48000, PayInvoiceCall ''lnbc1invoice'',
         Reactivated ''p1'' 48000], sessionStore)"
    by (simp add: refundVoucher_def rejectingJob_def DeactivateVoucher_def
        ReactivateVoucher_def RefundToLightningAddress_def capNetwork_def ambiguous_def
        deactivateRows_def reactivateRows_def sessionStore_def boundaryVoucher_def)
  have run2: "refundVoucher timeoutJob boundaryVoucher sessionStore
     = (fst (refundVoucher timeoutJob boundaryVoucher sessionStore),
        snd (refundVoucher timeoutJob boundaryVoucher sessionStore))"
    by simp
  have run3: "refundVoucher lockedJob boundaryVoucher sessionStore
     = (fst (refundVoucher lockedJob boundaryVoucher sessionStore),
        snd (refundVoucher lockedJob boundaryVoucher sessionStore))"
    by simp
  have out2: "fst (RefundToLightningAddress (network timeoutJob (PayID boundaryVoucher))
                (LightningAddress boundaryVoucher) (TotalPaidMsats boundaryVoucher))
              = Some (Wrapped ''blitzi POST /pay: '' DeadlineExceeded)"
    by (simp add: timeoutJob_def rejectingJob_def RefundToLightningAddress_def capNetwork_def
        boundaryVoucher_def)
  have out3: "fst (RefundToLightningAddress (network lockedJob (PayID boundaryVoucher))
                (LightningAddress boundaryVoucher) (TotalPaidMsats boundaryVoucher))
              = Some (OtherError ''blitzi pay error: no route'')"
    by (simp add: lockedJob_def rejectingJob_def RefundToLightningAddress_def capNetwork_def
        boundaryVoucher_def)
  have amb: "ambiguous (Wrapped ''blitzi POST /pay: '' DeadlineExceeded)"
    by (simp add: ambiguous_def)
  have definitive: "\<not> ambiguous (OtherError ''blitzi pay error: no route'')"
    by (simp add: ambiguous_def)
  have f2: "jobDeactivateFault timeoutJob (PayID boundaryVoucher) = None"
    by (simp add: timeoutJob_def rejectingJob_def)
  have f3: "jobDeactivateFault lockedJob (PayID boundaryVoucher) = None"
    "reactivateFault lockedJob (PayID boundaryVoucher) \<noteq> None"
    by (simp_all add: lockedJob_def rejectingJob_def)
  have rows: "deactivateRows (PayID boundaryVoucher) (vouchers sessionStore)
      = [boundaryVoucher\<lparr>TotalPaidMsats := 0, Active := False\<rparr>]"
    by (simp add: deactivateRows_def sessionStore_def boundaryVoucher_def)
  from refund_deactivates_before_paying [OF run1]
  have a: "jobDeactivateFault rejectingJob ''p1'' = None"
    by (simp add: boundaryVoucher_def)
  from refund_deactivates_before_paying [OF run2] f2 out2 amb
  have "vouchers (snd (refundVoucher timeoutJob boundaryVoucher sessionStore))
          = deactivateRows (PayID boundaryVoucher) (vouchers sessionStore)"
    by simp
  then have b: "vouchers (snd (refundVoucher timeoutJob boundaryVoucher sessionStore))
     = [boundaryVoucher\<lparr>TotalPaidMsats := 0, Active := False\<rparr>]"
    by (simp only: rows)
  from refund_deactivates_before_paying [OF run3] f3 out3 definitive
  have "vouchers (snd (refundVoucher lockedJob boundaryVoucher sessionStore))
          = deactivateRows (PayID boundaryVoucher) (vouchers sessionStore)"
    by simp
  then have c: "vouchers (snd (refundVoucher lockedJob boundaryVoucher sessionStore))
     = [boundaryVoucher\<lparr>TotalPaidMsats := 0, Active := False\<rparr>]"
    by (simp only: rows)
  from run1 a b c show ?thesis by simp
qed


section \<open>The codec: checksum, regrouping and round trip\<close>

subsection \<open>The checksum of an encoded string verifies\<close>

lemma upt_0_5: "[0..<5] = [0, 1, 2, 3, 4]"
  by (simp add: upt_rec)

lemma upt_0_6: "[0..<6] = [0, 1, 2, 3, 4, 5]"
  by (simp add: upt_rec)

lemma foldl_xor_start:
  "foldl (\<lambda>c i. if P i then c XOR g i else c) (c0 :: 32 word) xs
     = c0 XOR foldl (\<lambda>c i. if P i then c XOR g i else c) 0 xs"
proof (induction xs arbitrary: c0)
  case Nil
  then show ?case by simp
next
  case (Cons x xs)
  show ?case
  proof (cases "P x")
    case True
    with Cons.IH [of "c0 XOR g x"] Cons.IH [of "g x"] show ?thesis
      by (simp add: xor.assoc)
  next
    case False
    with Cons.IH [of c0] show ?thesis by simp
  qed
qed

lemma polymodStep_alt:
  "polymodStep chk v
     = push_bit 5 (chk AND 0x1ffffff) XOR ucast v XOR generatorXor (drop_bit 25 chk)"
  unfolding polymodStep_def generatorXor_def Let_def
  by (subst foldl_xor_start [of "\<lambda>i. drop_bit i (drop_bit 25 chk) AND 1 = 1"
        "\<lambda>i. bech32Generator ! i"]) (simp only: xor.assoc)

lemma polymodStep_value:
  "polymodStep chk v = polymodStep chk 0 XOR ucast v"
  by (simp add: polymodStep_alt ac_simps)

lemma generatorXor_bound: "drop_bit 30 (generatorXor t) = 0"
  by (simp add: generatorXor_def upt_0_5 bech32Generator_def)

lemma mask_25: "(0x1ffffff :: 32 word) = mask 25"
  by (simp add: mask_eq_exp_minus_1)

lemma polymodStep_shift:
  assumes "take_bit 25 d = d"
  shows "polymodStep (chk XOR d) 0 = polymodStep chk 0 XOR push_bit 5 d"
proof -
  from assms have "drop_bit 25 d = 0"
    by (simp add: take_bit_eq_self_iff_drop_bit_eq_0)
  then have top: "drop_bit 25 (chk XOR d) = drop_bit 25 chk"
    by (simp add: drop_bit_xor)
  have "d AND mask 25 = d"
    using assms by (simp add: take_bit_eq_mask)
  then have low: "(chk XOR d) AND mask 25 = (chk AND mask 25) XOR d"
    by (simp add: bit.conj_xor_distrib2)
  show ?thesis
    unfolding polymodStep_alt mask_25 top low
    by (simp add: push_bit_xor ac_simps)
qed

lemma take_bit_30_base:
  "take_bit 30 (push_bit 5 (chk AND mask 25) :: 32 word) = push_bit 5 (chk AND mask 25)"
  by (rule bit_word_eqI) (auto simp: bit_simps)

lemma take_bit_30_ucast: "take_bit 30 (ucast (v :: byte) :: 32 word) = ucast v"
  by (rule bit_word_eqI) (auto simp: bit_simps dest: bit_imp_le_length)

lemma take_bit_30_generatorXor: "take_bit 30 (generatorXor t) = generatorXor t"
  using generatorXor_bound [of t] by (simp add: take_bit_eq_self_iff_drop_bit_eq_0)

lemma polymodStep_bound: "take_bit 30 (polymodStep chk v) = polymodStep chk v"
  unfolding polymodStep_alt mask_25
  by (simp only: take_bit_xor take_bit_30_base take_bit_30_ucast take_bit_30_generatorXor)

lemma packSymbols_snoc:
  "packSymbols (cs @ [c]) = push_bit 5 (packSymbols cs) XOR ucast c"
  by (simp add: packSymbols_def)

lemma ucast_symbol_bound:
  assumes "take_bit 5 (c :: byte) = c" and "5 \<le> n"
  shows "take_bit n (ucast c :: 32 word) = ucast c"
proof (rule bit_word_eqI)
  fix k
  assume "k < LENGTH(32)"
  have "bit c k \<Longrightarrow> k < 5"
    using assms(1) by (metis bit_take_bit_iff)
  with assms(2) show "bit (take_bit n (ucast c :: 32 word)) k = bit (ucast c :: 32 word) k"
    by (auto simp: bit_simps)
qed

lemma packSymbols_bound:
  assumes "\<forall>c \<in> set cs. take_bit 5 c = c"
  shows "take_bit (5 * length cs) (packSymbols cs) = packSymbols cs"
  using assms
proof (induction cs rule: rev_induct)
  case Nil
  then show ?case by (simp add: packSymbols_def)
next
  case (snoc c cs)
  then have ih: "take_bit (5 * length cs) (packSymbols cs) = packSymbols cs"
    and c: "take_bit 5 c = c"
    by simp_all
  have "take_bit (5 * length cs + 5) (push_bit 5 (packSymbols cs))
          = push_bit 5 (take_bit (5 * length cs) (packSymbols cs))"
    by (simp add: take_bit_push_bit)
  moreover have "take_bit (5 * length cs + 5) (ucast c :: 32 word) = ucast c"
    by (rule ucast_symbol_bound [OF c]) simp
  moreover have "5 * length (cs @ [c]) = 5 * length cs + 5" by simp
  ultimately show ?case
    by (simp only: packSymbols_snoc take_bit_xor ih)
qed

lemma polymod_symbols:
  assumes "length cs \<le> 6" and "\<forall>c \<in> set cs. take_bit 5 c = c"
  shows "foldl polymodStep s cs
           = foldl polymodStep s (replicate (length cs) 0) XOR packSymbols cs"
  using assms
proof (induction cs rule: rev_induct)
  case Nil
  then show ?case by (simp add: packSymbols_def)
next
  case (snoc c cs)
  then have ih: "foldl polymodStep s cs
           = foldl polymodStep s (replicate (length cs) 0) XOR packSymbols cs"
    and len: "length cs \<le> 5" and syms: "\<forall>c \<in> set cs. take_bit 5 c = c"
    by simp_all
  let ?Z = "foldl polymodStep s (replicate (length cs) 0)"
  let ?P = "packSymbols cs"
  have "take_bit 25 (take_bit (5 * length cs) ?P) = take_bit (5 * length cs) ?P"
    using len by (simp add: min_def)
  then have small: "take_bit 25 ?P = ?P"
    by (simp only: packSymbols_bound [OF syms])
  have "foldl polymodStep s (cs @ [c]) = polymodStep (?Z XOR ?P) c"
    by (simp add: ih)
  also have "\<dots> = polymodStep (?Z XOR ?P) 0 XOR ucast c"
    by (rule polymodStep_value)
  also have "\<dots> = (polymodStep ?Z 0 XOR push_bit 5 ?P) XOR ucast c"
    by (simp only: polymodStep_shift [OF small])
  also have "\<dots> = polymodStep ?Z 0 XOR packSymbols (cs @ [c])"
    by (simp add: packSymbols_snoc xor.assoc)
  finally have step: "foldl polymodStep s (cs @ [c])
      = polymodStep ?Z 0 XOR packSymbols (cs @ [c])" .
  have "replicate (length (cs @ [c])) (0 :: byte) = replicate (length cs) 0 @ [0]"
    by (simp add: replicate_append_same)
  then have "foldl polymodStep s (replicate (length (cs @ [c])) 0) = polymodStep ?Z 0"
    by (simp only: foldl_append foldl.simps)
  with step show ?case by simp
qed

lemma mask_5: "(31 :: 32 word) = mask 5"
  by (simp add: mask_eq_exp_minus_1)

lemma symbol_chunk:
  "push_bit 5 (drop_bit (k + 5) x) XOR ucast (ucast (drop_bit k x AND 31) :: byte)
     = drop_bit k (x :: 32 word)"
  unfolding mask_5
  by (rule bit_word_eqI) (auto simp: bit_simps ac_simps)

lemma symbol_chunk_first:
  assumes "take_bit 30 pm = (pm :: 32 word)"
  shows "ucast (ucast (drop_bit 25 pm AND 31) :: byte) = drop_bit 25 pm"
proof -
  have "bit pm n \<Longrightarrow> n < 30" for n
    using assms by (metis bit_take_bit_iff)
  then have h5: "bit pm (25 + n) \<Longrightarrow> n < 5" for n
    by fastforce
  then have h8: "bit pm (25 + n) \<Longrightarrow> n < 8" for n
    by fastforce
  from h5 h8 show ?thesis
    unfolding mask_5
    by (intro bit_word_eqI) (auto simp: bit_simps)
qed

lemma checksum_symbol_bound:
  "take_bit 5 (ucast (drop_bit k (pm :: 32 word) AND 31) :: byte)
     = ucast (drop_bit k pm AND 31)"
  unfolding mask_5
  by (rule bit_word_eqI) (auto simp: bit_simps)

lemma pack_checksum:
  assumes "take_bit 30 pm = (pm :: 32 word)"
  shows "packSymbols (map (\<lambda>i. ucast (drop_bit (5 * (5 - i)) pm AND 31)) [0..<6]) = pm"
proof -
  have "packSymbols (map (\<lambda>i. ucast (drop_bit (5 * (5 - i)) pm AND 31)) [0..<6])
      = push_bit 5 (push_bit 5 (push_bit 5 (push_bit 5 (push_bit 5
          (ucast (ucast (drop_bit 25 pm AND 31) :: byte))
          XOR ucast (ucast (drop_bit 20 pm AND 31) :: byte))
          XOR ucast (ucast (drop_bit 15 pm AND 31) :: byte))
          XOR ucast (ucast (drop_bit 10 pm AND 31) :: byte))
          XOR ucast (ucast (drop_bit 5 pm AND 31) :: byte))
          XOR ucast (ucast (pm AND 31) :: byte)"
    by (simp add: packSymbols_def upt_0_6 del: push_bit_xor push_bit_and)
  also have "\<dots> = pm"
  proof -
    have c20: "push_bit 5 (drop_bit 25 pm) XOR ucast (ucast (drop_bit 20 pm AND 31) :: byte)
        = drop_bit 20 pm"
      using symbol_chunk [of 20 pm] by simp
    have c15: "push_bit 5 (drop_bit 20 pm) XOR ucast (ucast (drop_bit 15 pm AND 31) :: byte)
        = drop_bit 15 pm"
      using symbol_chunk [of 15 pm] by simp
    have c10: "push_bit 5 (drop_bit 15 pm) XOR ucast (ucast (drop_bit 10 pm AND 31) :: byte)
        = drop_bit 10 pm"
      using symbol_chunk [of 10 pm] by simp
    have c5: "push_bit 5 (drop_bit 10 pm) XOR ucast (ucast (drop_bit 5 pm AND 31) :: byte)
        = drop_bit 5 pm"
      using symbol_chunk [of 5 pm] by simp
    have c0: "push_bit 5 (drop_bit 5 pm) XOR ucast (ucast (pm AND 31) :: byte) = pm"
      using symbol_chunk [of 0 pm] by simp
    show ?thesis
      by (simp only: symbol_chunk_first [OF assms] c20 c15 c10 c5 c0)
  qed
  finally show ?thesis .
qed

lemma checksum_symbols:
  "\<forall>c \<in> set (bech32CreateChecksum hrp data). take_bit 5 c = c"
  by (auto simp: bech32CreateChecksum_def Let_def checksum_symbol_bound
      checksum_symbol_bound [of 0, simplified])

lemma length_checksum: "length (bech32CreateChecksum hrp data) = 6"
  by (simp add: bech32CreateChecksum_def Let_def)

lemma checksum_verifies:
  "bech32Polymod (bech32HRPExpand hrp @ data @ bech32CreateChecksum hrp data) = 1"
proof -
  define s where "s = foldl polymodStep 1 (bech32HRPExpand hrp @ data)"
  define Z where "Z = foldl polymodStep s (replicate 6 0)"
  define cs where "cs = bech32CreateChecksum hrp data"
  have Zpm: "Z = bech32Polymod (bech32HRPExpand hrp @ data @ [0, 0, 0, 0, 0, 0])"
    by (simp add: Z_def s_def bech32Polymod_def numeral_eq_Suc)
  then have cs: "cs = map (\<lambda>i. ucast (drop_bit (5 * (5 - i)) (Z XOR 1) AND 31)) [0..<6]"
    by (simp add: cs_def bech32CreateChecksum_def Let_def)
  have "replicate 6 (0 :: byte) = replicate 5 0 @ [0]"
    by (simp add: numeral_eq_Suc)
  then have "Z = polymodStep (foldl polymodStep s (replicate 5 0)) 0"
    by (simp only: Z_def foldl_append foldl.simps)
  then have "take_bit 30 Z = Z"
    by (simp only: polymodStep_bound)
  then have pm: "take_bit 30 (Z XOR 1) = Z XOR 1"
    by (simp add: take_bit_xor)
  have len: "length cs = 6" by (simp add: cs_def length_checksum)
  have syms: "\<forall>c \<in> set cs. take_bit 5 c = c"
    unfolding cs_def by (rule checksum_symbols)
  have "bech32Polymod (bech32HRPExpand hrp @ data @ cs) = foldl polymodStep s cs"
    by (simp add: bech32Polymod_def s_def)
  also have "\<dots> = foldl polymodStep s (replicate (length cs) 0) XOR packSymbols cs"
    by (rule polymod_symbols) (simp_all add: len syms)
  also have "\<dots> = Z XOR (Z XOR 1)"
    unfolding len Z_def [symmetric] by (simp only: cs pack_checksum [OF pm])
  also have "\<dots> = 1" by simp
  finally show ?thesis by (simp add: cs_def)
qed

subsection \<open>What the word operations of the regrouping compute\<close>

lemma maxv_mask: "push_bit t (1 :: 64 word) - 1 = mask t"
  by (simp add: push_bit_of_1 mask_eq_decr_exp)

lemma pending_less: "pending acc bits < 2 ^ bits"
  by (simp add: pending_def unsigned_take_bit_eq take_bit_nat_def)

lemma pending_0: "pending acc 0 = 0"
  by (simp add: pending_def)

lemma unat_ucast_byte:
  assumes "unat (w :: 64 word) < 256"
  shows "unat (ucast w :: byte) = unat w"
proof -
  have "unat (ucast w :: byte) = take_bit 8 (unat w)"
    by (simp add: unsigned_ucast_eq)
  with assms show ?thesis by (simp add: take_bit_nat_def)
qed

lemma emitted_word:
  assumes "b + t \<le> 64"
  shows "signed_drop_bit b acc AND (push_bit t (1 :: 64 word) - 1)
           = drop_bit b (take_bit (b + t) acc)"
  unfolding maxv_mask
proof (rule bit_word_eqI)
  fix n
  assume "n < LENGTH(64)"
  show "bit (signed_drop_bit b acc AND mask t) n = bit (drop_bit b (take_bit (b + t) acc)) n"
    using assms by (auto simp: bit_simps ac_simps)
qed

lemma emitted_symbol:
  assumes "b + t \<le> 64" and "t \<le> 8"
  shows "unat (ucast (signed_drop_bit b acc AND (push_bit t (1 :: 64 word) - 1)) :: byte)
           = pending acc (b + t) div 2 ^ b"
proof -
  let ?x = "drop_bit b (take_bit (b + t) acc)"
  have v: "unat ?x = pending acc (b + t) div 2 ^ b"
    by (simp add: pending_def unat_drop_bit_eq drop_bit_nat_def)
  have "pending acc (b + t) < 2 ^ (b + t)" by (rule pending_less)
  then have "pending acc (b + t) div 2 ^ b < 2 ^ t"
    by (simp add: power_add less_mult_imp_div_less mult.commute)
  also have "(2::nat) ^ t \<le> 2 ^ 8" using assms(2) by (intro power_increasing) simp_all
  finally have "unat ?x < 256" using v by simp
  then show ?thesis
    by (simp only: emitted_word [OF assms(1)] unat_ucast_byte v)
qed

lemma pending_rest: "pending acc b = pending acc (b + t) mod 2 ^ b"
proof -
  have "(2::nat) ^ b dvd 2 ^ (b + t)" by (simp add: power_add)
  then show ?thesis
    by (simp add: pending_def unsigned_take_bit_eq take_bit_nat_def mod_mod_cancel)
qed

lemma nat_push_bit_or:
  assumes "(y::nat) < 2 ^ f"
  shows "push_bit f x OR y = x * 2 ^ f + y"
proof -
  have "\<not> bit (push_bit f x) n \<or> \<not> bit y n" for n
  proof (cases "n < f")
    case True
    then show ?thesis by (simp add: bit_push_bit_iff)
  next
    case False
    then have "(2::nat) ^ f \<le> 2 ^ n" by (intro power_increasing) simp_all
    with assms have "y < 2 ^ n" by linarith
    then have "\<not> bit y n" by (simp add: bit_nat_def)
    then show ?thesis by simp
  qed
  then have "push_bit f x + y = push_bit f x OR y" by (rule disjunctive_add)
  then show ?thesis by (simp add: push_bit_eq_mult)
qed

lemma absorbed_word:
  assumes "unat (v :: byte) < 2 ^ f"
  shows "take_bit (bits + f) (push_bit f acc OR ucast v :: 64 word)
           = push_bit f (take_bit bits acc) OR ucast v"
proof -
  have small: "bit v n \<Longrightarrow> n < f" for n
  proof (rule ccontr)
    assume b: "bit v n" and "\<not> n < f"
    then have "(2::nat) ^ f \<le> 2 ^ n" by (intro power_increasing) simp_all
    with assms have "unat v < 2 ^ n" by linarith
    then have "\<not> bit (unat v) n" by (simp add: bit_nat_def)
    with b show False by (simp add: bit_unsigned_iff)
  qed
  show ?thesis
    by (rule bit_word_eqI) (auto simp: bit_simps dest: small)
qed

lemma absorbed:
  assumes "unat (v :: byte) < 2 ^ f" and "bits + f \<le> 64"
  shows "pending (push_bit f acc OR ucast v) (bits + f) = pending acc bits * 2 ^ f + unat v"
proof -
  have "pending acc bits < 2 ^ bits" by (rule pending_less)
  then have "pending acc bits * 2 ^ f < 2 ^ bits * 2 ^ f" by simp
  also have "\<dots> = 2 ^ (bits + f)" by (simp add: power_add)
  also have "\<dots> \<le> 2 ^ 64"
    using assms(2) by (intro power_increasing) simp_all
  finally have fits: "push_bit f (pending acc bits) < 2 ^ 64"
    by (simp add: push_bit_eq_mult)
  have "unat (push_bit f (take_bit bits acc)) = push_bit f (pending acc bits)"
    using fits by (simp add: unsigned_push_bit_eq pending_def take_bit_nat_def)
  moreover have "unat (ucast v :: 64 word) = unat v"
  proof -
    have "unat v < 2 ^ LENGTH(8)" by (rule unsigned_less)
    then have "unat v < 2 ^ 64" by simp
    then show ?thesis by (simp add: unsigned_ucast_eq take_bit_nat_def)
  qed
  ultimately show ?thesis
    unfolding pending_def [of _ "bits + f"] absorbed_word [OF assms(1)]
    by (simp add: unsigned_or_eq nat_push_bit_or [OF assms(1)])
qed

lemma padded_word:
  assumes "bits < t"
  shows "push_bit (t - bits) acc AND (push_bit t (1 :: 64 word) - 1)
           = push_bit (t - bits) (take_bit bits acc)"
  unfolding maxv_mask
proof (rule bit_word_eqI)
  fix n
  assume "n < LENGTH(64)"
  show "bit (push_bit (t - bits) acc AND mask t) n
          = bit (push_bit (t - bits) (take_bit bits acc)) n"
    using assms by (auto simp: bit_simps)
qed

lemma padded_value:
  assumes "bits < t" and "t \<le> 64"
  shows "unat (push_bit (t - bits) acc AND (push_bit t (1 :: 64 word) - 1))
           = pending acc bits * 2 ^ (t - bits)"
proof -
  have "pending acc bits < 2 ^ bits" by (rule pending_less)
  then have "pending acc bits * 2 ^ (t - bits) < 2 ^ bits * 2 ^ (t - bits)" by simp
  also have "\<dots> = 2 ^ t" using assms(1) by (simp add: power_add [symmetric])
  also have "\<dots> \<le> 2 ^ 64" using assms(2) by (intro power_increasing) simp_all
  finally have fits: "push_bit (t - bits) (pending acc bits) < 2 ^ LENGTH(64)"
    by (simp add: push_bit_eq_mult)
  have "unat (push_bit (t - bits) (take_bit bits acc))
          = take_bit LENGTH(64) (push_bit (t - bits) (pending acc bits))"
    unfolding pending_def by (rule unsigned_push_bit_eq)
  also have "\<dots> = push_bit (t - bits) (pending acc bits)"
    using fits by (rule take_bit_nat_eq_self)
  also have "\<dots> = pending acc bits * 2 ^ (t - bits)"
    by (rule push_bit_eq_mult)
  finally show ?thesis
    by (simp only: padded_word [OF assms(1)])
qed

lemma padded_symbol:
  assumes "bits < t" and "t \<le> 8"
  shows "unat (ucast (push_bit (t - bits) acc AND (push_bit t (1 :: 64 word) - 1)) :: byte)
           = pending acc bits * 2 ^ (t - bits)"
proof -
  from assms have t64: "t \<le> 64" by simp
  have "pending acc bits < 2 ^ bits" by (rule pending_less)
  then have "pending acc bits * 2 ^ (t - bits) < 2 ^ bits * 2 ^ (t - bits)" by simp
  also have "\<dots> = 2 ^ t" using assms(1) by (simp add: power_add [symmetric])
  also have "\<dots> \<le> 2 ^ 8" using assms(2) by (intro power_increasing) simp_all
  finally have "pending acc bits * 2 ^ (t - bits) < 256" by simp
  then have "unat (push_bit (t - bits) acc AND (push_bit t (1 :: 64 word) - 1)) < 256"
    by (simp only: padded_value [OF assms(1) t64])
  then show ?thesis
    by (simp only: unat_ucast_byte padded_value [OF assms(1) t64])
qed

lemma padding_check:
  assumes "bits < t" and "t \<le> 64"
  shows "(push_bit (t - bits) acc AND (push_bit t (1 :: 64 word) - 1) = 0)
           = (pending acc bits = 0)"
proof -
  have "(push_bit (t - bits) acc AND (push_bit t (1 :: 64 word) - 1) = 0)
          = (unat (push_bit (t - bits) acc AND (push_bit t (1 :: 64 word) - 1)) = 0)"
    by (simp only: unat_eq_0)
  also have "\<dots> = (pending acc bits * 2 ^ (t - bits) = 0)"
    by (simp only: padded_value [OF assms])
  also have "\<dots> = (pending acc bits = 0)" by simp
  finally show ?thesis .
qed

subsection \<open>The loops keep the invariant; regrouping is inverted\<close>

lemma groupValue_snoc: "groupValue k (xs @ [x]) = groupValue k xs * 2 ^ k + unat x"
  by (simp add: groupValue_def)

lemma groupValue_Nil: "groupValue k [] = 0"
  by (simp add: groupValue_def)

lemma convInv_emit:
  assumes inv: "convInv t V L acc bits res" and ge: "t \<le> bits" and "bits \<le> 64" and "t \<le> 8"
  shows "convInv t V L acc (bits - t)
           (res @ [ucast (signed_drop_bit (bits - t) acc AND (push_bit t 1 - 1))])"
proof -
  let ?b = "bits - t"
  let ?sym = "ucast (signed_drop_bit ?b acc AND (push_bit t 1 - 1)) :: byte"
  from ge have bt: "?b + t = bits" by simp
  with assms have sym: "unat ?sym = pending acc bits div 2 ^ ?b"
    using emitted_symbol [of ?b t acc] by simp
  have rest: "pending acc ?b = pending acc bits mod 2 ^ ?b"
    using pending_rest [of acc ?b t] bt by simp
  have "pending acc bits < 2 ^ (?b + t)" using pending_less [of acc bits] bt by simp
  then have symlt: "unat ?sym < 2 ^ t"
    unfolding sym by (simp add: power_add less_mult_imp_div_less mult.commute)
  have "groupValue t (res @ [?sym]) * 2 ^ ?b + pending acc ?b
          = groupValue t res * (2 ^ t * 2 ^ ?b)
              + (pending acc bits div 2 ^ ?b * 2 ^ ?b + pending acc bits mod 2 ^ ?b)"
    unfolding groupValue_snoc sym rest by (simp add: algebra_simps)
  also have "2 ^ t * 2 ^ ?b = (2::nat) ^ bits"
    using bt by (metis add.commute power_add)
  also have "pending acc bits div 2 ^ ?b * 2 ^ ?b + pending acc bits mod 2 ^ ?b
               = pending acc bits"
    by (rule div_mult_mod_eq)
  finally have v: "groupValue t (res @ [?sym]) * 2 ^ ?b + pending acc ?b = V"
    using inv by (simp add: convInv_def)
  have l: "L = t * length (res @ [?sym]) + ?b"
    using inv ge by (simp add: convInv_def)
  from inv symlt have "\<forall>x \<in> set (res @ [?sym]). unat x < 2 ^ t"
    by (simp add: convInv_def)
  with v l show ?thesis by (simp add: convInv_def)
qed

lemma drainBits_spec:
  assumes "0 < t" and "t \<le> 8"
  shows "bits \<le> 64 \<Longrightarrow> convInv t V L acc bits res \<Longrightarrow>
         \<exists>bits' res'. drainBits t (push_bit t 1 - 1) acc bits res = Some (bits', res')
            \<and> bits' < t \<and> convInv t V L acc bits' res'"
proof (induction bits arbitrary: res rule: less_induct)
  case (less bits)
  show ?case
  proof (cases "t \<le> bits")
    case False
    with less.prems show ?thesis
      by (subst drainBits.simps) simp
  next
    case True
    let ?res = "res @ [ucast (signed_drop_bit (bits - t) acc AND (push_bit t 1 - 1))]"
    have inv': "convInv t V L acc (bits - t) ?res"
      using less.prems True assms(2) by (intro convInv_emit) simp_all
    have lt: "bits - t < bits" using True assms(1) by simp
    have le: "bits - t \<le> 64" using less.prems(1) by simp
    from less.IH [OF lt le inv']
    obtain bits' res' where
      "drainBits t (push_bit t 1 - 1) acc (bits - t) ?res = Some (bits', res')"
      "bits' < t" "convInv t V L acc bits' res'"
      by auto
    with True show ?thesis
      by (subst drainBits.simps) simp
  qed
qed

lemma convInv_absorb:
  assumes inv: "convInv t V L acc bits res" and v: "unat (v :: byte) < 2 ^ f"
    and fit: "bits + f \<le> 64"
  shows "convInv t (V * 2 ^ f + unat v) (L + f) (push_bit f acc OR ucast v) (bits + f) res"
proof -
  have "pending (push_bit f acc OR ucast v) (bits + f) = pending acc bits * 2 ^ f + unat v"
    by (rule absorbed [OF v fit])
  with inv show ?thesis
    by (simp add: convInv_def power_add algebra_simps)
qed

lemma convertLoop_spec:
  assumes "0 < t" and "t \<le> 8" and "f \<le> 8"
  shows "\<forall>v \<in> set data. unat v < 2 ^ f \<Longrightarrow> bits < t \<Longrightarrow> convInv t V L acc bits res \<Longrightarrow>
         \<exists>acc' bits' res'.
            convertLoop f t (push_bit t 1 - 1) data acc bits res = Some (acc', bits', res')
            \<and> bits' < t
            \<and> convInv t (foldl (\<lambda>a x. a * 2 ^ f + unat x) V data) (L + f * length data)
                 acc' bits' res'"
proof (induction data arbitrary: V L acc bits res)
  case Nil
  then show ?case by simp
next
  case (Cons v data)
  let ?acc1 = "push_bit f acc OR ucast v"
  let ?bits1 = "bits + f"
  from Cons.prems(1) have v: "unat v < 2 ^ f" and rest: "\<forall>v \<in> set data. unat v < 2 ^ f"
    by simp_all
  from Cons.prems(2) assms have fit: "?bits1 \<le> 64" by simp
  have inv1: "convInv t (V * 2 ^ f + unat v) (L + f) ?acc1 ?bits1 res"
    by (rule convInv_absorb [OF Cons.prems(3) v fit])
  from drainBits_spec [OF assms(1,2) fit inv1] obtain bits2 res2 where
    d: "drainBits t (push_bit t 1 - 1) ?acc1 ?bits1 res = Some (bits2, res2)"
    and b2: "bits2 < t"
    and inv2: "convInv t (V * 2 ^ f + unat v) (L + f) ?acc1 bits2 res2"
    by blast
  from Cons.IH [OF rest b2 inv2] obtain acc' bits' res' where
    "convertLoop f t (push_bit t 1 - 1) data ?acc1 bits2 res2 = Some (acc', bits', res')"
    "bits' < t"
    "convInv t (foldl (\<lambda>a x. a * 2 ^ f + unat x) (V * 2 ^ f + unat v) data)
       (L + f + f * length data) acc' bits' res'"
    by blast
  with d show ?case
    by (simp add: Let_def algebra_simps)
qed

lemma convInv_start: "convInv t 0 0 0 0 []"
  by (simp add: convInv_def groupValue_Nil pending_0)

lemma convertBits_loop:
  assumes "0 < t" and "t \<le> 8" and "f \<le> 8" and "\<forall>v \<in> set data. unat v < 2 ^ f"
  shows "\<exists>acc bits res.
            convertLoop f t (push_bit t 1 - 1) data 0 0 [] = Some (acc, bits, res)
            \<and> bits < t
            \<and> convInv t (groupValue f data) (f * length data) acc bits res"
  using convertLoop_spec [OF assms(1-3) assms(4) assms(1) convInv_start]
  by (simp add: groupValue_def)

lemma convertBits_pad:
  assumes t: "0 < t" "t \<le> 8" and f: "f \<le> 8" and syms: "\<forall>v \<in> set data. unat v < 2 ^ f"
  shows "\<exists>out p. convertBits data f t True = Some (Inr out) \<and> p < t
            \<and> groupValue t out = groupValue f data * 2 ^ p
            \<and> t * length out = f * length data + p
            \<and> (\<forall>x \<in> set out. unat x < 2 ^ t)"
proof -
  from convertBits_loop [OF t f syms] obtain acc bits res where
    loop: "convertLoop f t (push_bit t 1 - 1) data 0 0 [] = Some (acc, bits, res)"
    and bits: "bits < t"
    and inv: "convInv t (groupValue f data) (f * length data) acc bits res"
    by blast
  show ?thesis
  proof (cases "bits = 0")
    case True
    with loop have "convertBits data f t True = Some (Inr res)"
      by (simp add: convertBits_def Let_def)
    moreover from inv True have "groupValue t res = groupValue f data * 2 ^ 0"
      "t * length res = f * length data + 0" "\<forall>x \<in> set res. unat x < 2 ^ t"
      by (simp_all add: convInv_def pending_0)
    ultimately show ?thesis using t(1) by blast
  next
    case False
    let ?sym = "ucast (push_bit (t - bits) acc AND (push_bit t 1 - 1)) :: byte"
    let ?p = "t - bits"
    have sym: "unat ?sym = pending acc bits * 2 ^ ?p"
      by (rule padded_symbol [OF bits t(2)])
    have "pending acc bits * 2 ^ ?p < 2 ^ bits * 2 ^ ?p"
      using pending_less [of acc bits] by simp
    also have "\<dots> = 2 ^ t" using bits by (simp add: power_add [symmetric])
    finally have symlt: "unat ?sym < 2 ^ t" by (simp only: sym)
    have tsplit: "(2::nat) ^ t = 2 ^ bits * 2 ^ ?p"
      using bits by (simp add: power_add [symmetric])
    from loop False have c: "convertBits data f t True = Some (Inr (res @ [?sym]))"
      by (simp add: convertBits_def Let_def)
    have "groupValue t (res @ [?sym])
            = groupValue t res * (2 ^ bits * 2 ^ ?p) + pending acc bits * 2 ^ ?p"
      by (simp only: groupValue_snoc sym tsplit)
    also have "\<dots> = (groupValue t res * 2 ^ bits + pending acc bits) * 2 ^ ?p"
      by (simp add: algebra_simps)
    also have "\<dots> = groupValue f data * 2 ^ ?p"
      using inv by (simp add: convInv_def)
    finally have v: "groupValue t (res @ [?sym]) = groupValue f data * 2 ^ ?p" .
    have l: "t * length (res @ [?sym]) = f * length data + ?p"
      using inv bits by (simp add: convInv_def)
    have s: "\<forall>x \<in> set (res @ [?sym]). unat x < 2 ^ t"
      using inv symlt by (simp add: convInv_def)
    have "?p < t" using False t(1) by simp
    with c v l s show ?thesis by blast
  qed
qed

lemma groupValue_inj:
  assumes "length xs = length ys"
    and "\<forall>x \<in> set xs. unat x < 2 ^ k" and "\<forall>y \<in> set ys. unat y < 2 ^ k"
    and "groupValue k xs = groupValue k ys"
  shows "xs = ys"
  using assms
proof (induction xs arbitrary: ys rule: rev_induct)
  case Nil
  then show ?case by simp
next
  case (snoc x xs)
  from snoc.prems(1) obtain y ys' where ys: "ys = ys' @ [y]"
    by (cases ys rule: rev_cases) simp_all
  from snoc.prems ys have x: "unat x < 2 ^ k" and y: "unat y < 2 ^ k"
    and eq: "groupValue k xs * 2 ^ k + unat x = groupValue k ys' * 2 ^ k + unat y"
    by (simp_all add: groupValue_snoc)
  from eq have "(groupValue k xs * 2 ^ k + unat x) mod 2 ^ k
                  = (groupValue k ys' * 2 ^ k + unat y) mod 2 ^ k"
    by simp
  with x y have xy: "unat x = unat y" by simp
  with eq have "groupValue k xs = groupValue k ys'" by simp
  moreover from snoc.prems ys have "length xs = length ys'"
    "\<forall>x \<in> set xs. unat x < 2 ^ k" "\<forall>y \<in> set ys'. unat y < 2 ^ k"
    by simp_all
  ultimately have "xs = ys'" by (intro snoc.IH)
  with xy ys show ?case by (simp add: word_unat_eq_iff)
qed

lemma convertBits_unpad:
  assumes syms: "\<forall>x \<in> set out. unat x < 2 ^ 5"
    and v: "groupValue 5 out = groupValue 8 data * 2 ^ p"
    and l: "5 * length out = 8 * length data + p" and p: "p < 5"
  shows "convertBits out 5 8 False = Some (Inr data)"
proof -
  have "\<exists>acc bits res.
            convertLoop 5 8 (push_bit 8 1 - 1) out 0 0 [] = Some (acc, bits, res)
            \<and> bits < 8
            \<and> convInv 8 (groupValue 5 out) (5 * length out) acc bits res"
    by (rule convertBits_loop [OF _ _ _ syms]) simp_all
  then obtain acc bits res where
    loop: "convertLoop 5 8 (push_bit 8 1 - 1) out 0 0 [] = Some (acc, bits, res)"
    and bits: "bits < 8"
    and inv: "convInv 8 (groupValue 5 out) (5 * length out) acc bits res"
    by blast
  from inv l have "8 * length data + p = 8 * length res + bits"
    by (simp add: convInv_def)
  with p bits have bp: "bits = p" and len: "length res = length data"
    by presburger+
  from inv v bp have eq: "groupValue 8 data * 2 ^ p = groupValue 8 res * 2 ^ p + pending acc p"
    by (simp add: convInv_def)
  have "(groupValue 8 data * 2 ^ p) mod 2 ^ p = (groupValue 8 res * 2 ^ p + pending acc p) mod 2 ^ p"
    by (simp only: eq)
  then have zero: "pending acc p = 0"
    using pending_less [of acc p] by simp
  with eq have val: "groupValue 8 res = groupValue 8 data" by simp
  have bytes: "unat x < 2 ^ 8" for x :: byte
    using unsigned_less [of x] by simp
  have "res = data"
    by (rule groupValue_inj [OF len _ _ val]) (use bytes in blast)+
  moreover have "\<not> 5 \<le> bits" using bp p by simp
  moreover have "push_bit (8 - bits) acc AND (push_bit 8 1 - 1) = 0"
    using padding_check [of bits 8 acc] bits zero bp by simp
  ultimately show ?thesis
    using loop by (simp add: convertBits_def Let_def)
qed

lemma convertBits_roundtrip:
  "\<exists>out. convertBits data 8 5 True = Some (Inr out)
      \<and> (\<forall>x \<in> set out. unat x < 32)
      \<and> convertBits out 5 8 False = Some (Inr data)"
proof -
  have byte: "unat x < 2 ^ 8" for x :: byte
    using unsigned_less [of x] by simp
  then have bytes: "\<forall>v \<in> set data. unat v < 2 ^ 8"
    by blast
  from convertBits_pad [of 5 8 data, OF _ _ _ bytes] obtain out p where
    enc: "convertBits data 8 5 True = Some (Inr out)" and p: "p < 5"
    and v: "groupValue 5 out = groupValue 8 data * 2 ^ p"
    and l: "5 * length out = 8 * length data + p"
    and s: "\<forall>x \<in> set out. unat x < 2 ^ 5"
    by auto
  from convertBits_unpad [OF s v l p] enc s show ?thesis by simp
qed

subsection \<open>Characters, and the round trip\<close>

lemma upper_prefix: "map toUpperASCII ''lnurl1'' = ''LNURL1''"
  by (simp add: toUpperASCII_def)

lemma lower_upper_prefix: "map toLowerASCII (map toUpperASCII ''lnurl1'') = ''lnurl1''"
  by (simp add: toUpperASCII_def toLowerASCII_def)

lemma charset_chars:
  "\<forall>x \<in> set bech32Charset. toLowerASCII (toUpperASCII x) = x \<and> x \<noteq> CHR ''1''"
  by (simp add: bech32Charset_def toUpperASCII_def toLowerASCII_def)

lemma charset_distinct: "distinct bech32Charset"
  by (simp add: bech32Charset_def)

lemma charset_length: "length bech32Charset = 32"
  by (simp add: bech32Charset_def)

lemma indexFrom_nth:
  "distinct xs \<Longrightarrow> i < length xs \<Longrightarrow> indexFrom k (xs ! i) xs = Some (k + i)"
proof (induction xs arbitrary: i k)
  case Nil
  then show ?case by simp
next
  case (Cons x xs)
  show ?case
  proof (cases i)
    case 0
    then show ?thesis by simp
  next
    case (Suc j)
    with Cons.prems have "xs ! j \<in> set xs" "x \<notin> set xs" "j < length xs" "distinct xs"
      by simp_all
    then have "x \<noteq> xs ! j" by auto
    with Suc Cons.IH [OF \<open>distinct xs\<close> \<open>j < length xs\<close>, of "Suc k"] show ?thesis
      by simp
  qed
qed

lemma symbol_char:
  assumes "unat (c :: byte) < 32"
  shows "charsetIndex (toLowerASCII (toUpperASCII (bech32Charset ! unat c))) = Some c"
    and "toLowerASCII (toUpperASCII (bech32Charset ! unat c)) \<noteq> CHR ''1''"
proof -
  from assms have mem: "bech32Charset ! unat c \<in> set bech32Charset"
    by (simp add: charset_length)
  with charset_chars have same: "toLowerASCII (toUpperASCII (bech32Charset ! unat c))
      = bech32Charset ! unat c"
    and one: "bech32Charset ! unat c \<noteq> CHR ''1''"
    by blast+
  have "indexFrom 0 (bech32Charset ! unat c) bech32Charset = Some (0 + unat c)"
    using assms by (intro indexFrom_nth charset_distinct) (simp add: charset_length)
  then show "charsetIndex (toLowerASCII (toUpperASCII (bech32Charset ! unat c))) = Some c"
    by (simp add: same charsetIndex_def)
  from same one show "toLowerASCII (toUpperASCII (bech32Charset ! unat c)) \<noteq> CHR ''1''"
    by simp
qed

lemma writeSymbols_ok:
  "\<forall>c \<in> set cs. unat c < 32 \<Longrightarrow>
     writeSymbols cs sb = Inr (sb @ map (\<lambda>c. bech32Charset ! unat c) cs)"
  by (induction cs arbitrary: sb) (simp_all add: charset_length)

lemma readSymbols_ok:
  "\<forall>c \<in> set cs. unat c < 32 \<Longrightarrow>
     readSymbols (map (\<lambda>c. toLowerASCII (toUpperASCII (bech32Charset ! unat c))) cs) = Some cs"
  by (induction cs) (simp_all add: symbol_char(1))

lemma splitAtLastOne_prefix:
  assumes "CHR ''1'' \<notin> set d"
  shows "splitAtLastOne (''lnurl1'' @ d) = Some (''lnurl'', d)"
proof -
  have r: "rev (''lnurl1'' @ d) = rev d @ CHR ''1'' # ''lrunl''" by simp
  from assms have all: "\<forall>x \<in> set (rev d). x \<noteq> CHR ''1''" by auto
  have t: "takeWhile (\<lambda>c. c \<noteq> CHR ''1'') (rev d @ CHR ''1'' # ''lrunl'') = rev d"
    using all by (simp add: takeWhile_tail)
  have dr: "dropWhile (\<lambda>c. c \<noteq> CHR ''1'') (rev d @ CHR ''1'' # ''lrunl'') = CHR ''1'' # ''lrunl''"
    using all by (simp add: dropWhile_append3)
  show ?thesis
    unfolding splitAtLastOne_def r t dr by simp
qed

lemma symbol_unat_bound:
  assumes "take_bit 5 (c :: byte) = c"
  shows "unat c < 32"
proof -
  have "unat (take_bit 5 c) = take_bit 5 (unat c)"
    by (rule unsigned_take_bit_eq)
  moreover have "take_bit 5 (unat c) < 2 ^ 5"
    by (rule take_bit_nat_less_exp)
  ultimately show ?thesis using assms by simp
qed

text \<open>
  Claim C8: for every byte string, \<^verbatim>\<open>EncodeLNURL\<close> returns a string, that string is the
  upper-cased text \<open>lnurl1\<close> followed by the charset characters of the 5-bit regrouping
  of the bytes and of their six checksum symbols, so it begins with \<open>LNURL1\<close>, and
  decoding it gives the bytes back (\<^verbatim>\<open>DecodeLNURL\<close> is the function modelled from the
  specification). The checksum symbols are those of bech32: the encoder gives
  \<open>LNURL13MYVSU\<close> for the empty byte string, the encoding that LUD-01 publishes for its
  example URL (90 bytes, regrouped without padding), and
  \<open>LNURL1DP68GURN8GHJ7CFWVGHHW2N23NR\<close> for \<open>https://a.b/w\<close> (13 bytes, regrouped with
  one bit of padding).
\<close>

theorem lnurl_roundtrip:
  "(\<exists>converted s.
      convertBits rawURL 8 5 True = Some (Inr converted)
    \<and> s = map toUpperASCII
            (''lnurl1'' @ map (\<lambda>c. bech32Charset ! unat c)
                            (converted @ bech32CreateChecksum ''lnurl'' converted))
    \<and> length (bech32CreateChecksum ''lnurl'' converted) = 6
    \<and> EncodeLNURL rawURL = Some (Inr s)
    \<and> take 6 s = ''LNURL1''
    \<and> DecodeLNURL s = Some (Inr rawURL))
   \<and> EncodeLNURL [] = Some (Inr ''LNURL13MYVSU'')
   \<and> EncodeLNURL (map of_char
         ''https://service.com/api?q=3fc3645b439ce8e7f2553a69e5267081d96dcd340693afabe04be7b0ccd178df'')
       = Some (Inr
         ''LNURL1DP68GURN8GHJ7UM9WFMXJCM99E3K7MF0V9CXJ0M385EKVCENXC6R2C35XVUKXEFCV5MKVV34X5EKZD3EV56NYD3HXQURZEPEXEJXXEPNXSCRVWFNV9NXZCN9XQ6XYEFHVGCXXCMYXYMNSERXFQ5FNS'')
   \<and> EncodeLNURL (map of_char ''https://a.b/w'')
       = Some (Inr ''LNURL1DP68GURN8GHJ7CFWVGHHW2N23NR'')"
proof -
  from convertBits_roundtrip [of rawURL] obtain converted where
    enc: "convertBits rawURL 8 5 True = Some (Inr converted)"
    and small: "\<forall>x \<in> set converted. unat x < 32"
    and dec: "convertBits converted 5 8 False = Some (Inr rawURL)"
    by blast
  define checksum where "checksum = bech32CreateChecksum ''lnurl'' converted"
  define combined where "combined = converted @ checksum"
  define body where "body = map (\<lambda>c. bech32Charset ! unat c) combined"
  define s where "s = map toUpperASCII (''lnurl1'' @ body)"
  have cs_small: "\<forall>x \<in> set checksum. unat x < 32"
    using checksum_symbols [of "''lnurl''" converted] symbol_unat_bound
    unfolding checksum_def by blast
  with small have all_small: "\<forall>x \<in> set combined. unat x < 32"
    by (auto simp: combined_def)
  have written: "writeSymbols combined ''lnurl1'' = Inr (''lnurl1'' @ body)"
    unfolding body_def by (rule writeSymbols_ok [OF all_small])
  have encoded: "EncodeLNURL rawURL = Some (Inr s)"
    using written
    by (simp add: EncodeLNURL_def enc Let_def checksum_def [symmetric]
        combined_def [symmetric] s_def)
  have s_split: "s = ''LNURL1'' @ map toUpperASCII body"
    unfolding s_def map_append upper_prefix ..
  then have prefix: "take 6 s = ''LNURL1''" by simp
  define lowered where
    "lowered = map (\<lambda>c. toLowerASCII (toUpperASCII (bech32Charset ! unat c))) combined"
  have low: "map toLowerASCII s = ''lnurl1'' @ lowered"
    unfolding s_def map_map [symmetric] map_append lower_upper_prefix
    by (simp add: lowered_def body_def comp_def)
  have no_one: "CHR ''1'' \<notin> set lowered"
  proof
    assume "CHR ''1'' \<in> set lowered"
    then obtain c where "c \<in> set combined"
      and "toLowerASCII (toUpperASCII (bech32Charset ! unat c)) = CHR ''1''"
      unfolding lowered_def by auto
    with all_small symbol_char(2) [of c] show False by blast
  qed
  have split: "splitAtLastOne (map toLowerASCII s) = Some (''lnurl'', lowered)"
    unfolding low by (rule splitAtLastOne_prefix [OF no_one])
  have read: "readSymbols lowered = Some combined"
    unfolding lowered_def by (rule readSymbols_ok [OF all_small])
  have check: "bech32Polymod (bech32HRPExpand ''lnurl'' @ combined) = 1"
    unfolding combined_def checksum_def by (rule checksum_verifies)
  have six: "length checksum = 6"
    unfolding checksum_def by (rule length_checksum)
  then have dropped: "take (length combined - 6) combined = converted"
    by (simp add: combined_def)
  have decoded: "DecodeLNURL s = Some (Inr rawURL)"
    by (simp add: DecodeLNURL_def split read check dropped dec)
  from enc six encoded prefix decoded
  have general: "\<exists>converted s.
      convertBits rawURL 8 5 True = Some (Inr converted)
    \<and> s = map toUpperASCII
            (''lnurl1'' @ map (\<lambda>c. bech32Charset ! unat c)
                            (converted @ bech32CreateChecksum ''lnurl'' converted))
    \<and> length (bech32CreateChecksum ''lnurl'' converted) = 6
    \<and> EncodeLNURL rawURL = Some (Inr s)
    \<and> take 6 s = ''LNURL1''
    \<and> DecodeLNURL s = Some (Inr rawURL)"
    unfolding s_def body_def combined_def checksum_def by blast
  have empty: "EncodeLNURL [] = Some (Inr ''LNURL13MYVSU'')"
    by code_simp
  have published: "EncodeLNURL (map of_char
         ''https://service.com/api?q=3fc3645b439ce8e7f2553a69e5267081d96dcd340693afabe04be7b0ccd178df'')
       = Some (Inr
         ''LNURL1DP68GURN8GHJ7UM9WFMXJCM99E3K7MF0V9CXJ0M385EKVCENXC6R2C35XVUKXEFCV5MKVV34X5EKZD3EV56NYD3HXQURZEPEXEJXXEPNXSCRVWFNV9NXZCN9XQ6XYEFHVGCXXCMYXYMNSERXFQ5FNS'')"
    by code_simp
  have padded: "EncodeLNURL (map of_char ''https://a.b/w'')
       = Some (Inr ''LNURL1DP68GURN8GHJ7CFWVGHHW2N23NR'')"
    by code_simp
  from general empty published padded show ?thesis by (intro conjI)
qed

end
